theory Spec2Isabelle
  imports Main "HOL-Library.AList"
begin
section \<open>Data model (src/types/workflow.ts)\<close>

text \<open>
  JavaScript values held by the own properties of a \<^verbatim>\<open>Record<string, unknown>\<close>: the
  primitives. The engine itself only tells \<^verbatim>\<open>undefined\<close> and \<^verbatim>\<open>null\<close> from everything
  else (the \<^verbatim>\<open>??\<close> operator of \<^verbatim>\<open>resolveNodeInputs\<close>).
\<close>

datatype jsvalue = JUndefined | JNull | JBool bool | JNumber int | JString string

type_synonym jsobject = "string \<rightharpoonup> jsvalue"

record WorkflowNode =
  node_id :: string
  node_type :: string
  node_label :: string
  node_data :: jsobject

record WorkflowEdge =
  edge_id :: string
  source :: string
  target :: string
  sourcePort :: "string option"
  targetPort :: "string option"
  edge_label :: "string option"

datatype PortType = InputPort | OutputPort

record PortDefinition =
  port_id :: string
  port_nodeId :: string
  port_type :: PortType
  port_label :: string
  dataType :: string
  required :: "bool option"

record Workflow =
  workflow_id :: string
  wf_nodes :: "WorkflowNode list"
  wf_edges :: "WorkflowEdge list"
  wf_ports :: "PortDefinition list"

section \<open>Input resolution (src/lib/workflows/executor.ts)\<close>

record ExecutionContext =
  ctx_nodeId :: string
  ctx_node :: WorkflowNode
  ctx_inputs :: jsobject
  dependencies :: "string list"

record NodeOutput =
  out_nodeId :: string
  out_output :: jsobject

text \<open>
  The output of a completed node is a plain data object: its own enumerable properties (the
  map) hold primitives, and its prototype is \<^verbatim>\<open>Object.prototype\<close> of an unmodified realm.
  Reading a property of such an object by name (\<^verbatim>\<open>sourceNode.output[port.label]\<close>) walks
  the prototype chain, so a name that is not an own property can still find one of the
  members of \<^verbatim>\<open>Object.prototype\<close>: a built-in function, or, for \<^verbatim>\<open>__proto__\<close>, the
  prototype object itself (the accessor's getter).
\<close>

definition object_prototype_members :: "string list" where
  "object_prototype_members =
     [''constructor'', ''__defineGetter__'', ''__defineSetter__'', ''hasOwnProperty'',
      ''__lookupGetter__'', ''__lookupSetter__'', ''isPrototypeOf'', ''propertyIsEnumerable'',
      ''toString'', ''valueOf'', ''toLocaleString'']"

datatype property = Data jsvalue | ObjectPrototypeMember string | ObjectPrototypeObject

definition get_property :: "jsobject \<Rightarrow> string \<Rightarrow> property" where
  "get_property obj key =
     (case obj key of
        Some v \<Rightarrow> Data v
      | None \<Rightarrow>
          if key = ''__proto__'' then ObjectPrototypeObject
          else if key \<in> set object_prototype_members then ObjectPrototypeMember key
          else Data JUndefined)"

text \<open>\<^verbatim>\<open>v ?? null\<close>: \<^verbatim>\<open>undefined\<close> and \<^verbatim>\<open>null\<close> are replaced by \<^verbatim>\<open>null\<close>.\<close>

fun nullish_to_null :: "property \<Rightarrow> property" where
  "nullish_to_null (Data JUndefined) = Data JNull"
| "nullish_to_null v = v"

text \<open>
  The object \<^verbatim>\<open>inputs\<close> under construction: its own properties, and whether its prototype
  is still \<^verbatim>\<open>Object.prototype\<close> (it starts as \<^verbatim>\<open>{}\<close>) or has been set to \<^verbatim>\<open>null\<close>.
\<close>

record InputObject =
  own_properties :: "string \<rightharpoonup> property"
  has_object_prototype :: bool

definition empty_object :: InputObject where
  "empty_object = \<lparr>own_properties = Map.empty, has_object_prototype = True\<rparr>"

text \<open>
  An assignment \<^verbatim>\<open>inputs[key] = v\<close> for a key other than \<^verbatim>\<open>__proto__\<close> creates or
  overwrites an own property: the data members of \<^verbatim>\<open>Object.prototype\<close> are writable, so
  they are shadowed, not changed.
\<close>

definition define_own :: "string \<Rightarrow> property \<Rightarrow> InputObject \<Rightarrow> InputObject" where
  "define_own key v inputs = inputs\<lparr>own_properties := (own_properties inputs)(key \<mapsto> v)\<rparr>"

text \<open>
  The assignment \<^verbatim>\<open>inputs['__proto__'] = v\<close>. The value assigned under this key by
  \<^verbatim>\<open>resolveNodeInputs\<close> is what the source output holds under the same key: a primitive
  (\<open>Some p\<close>), or, read through the getter, \<^verbatim>\<open>Object.prototype\<close> itself (\<open>None\<close>). If
  \<^verbatim>\<open>inputs\<close> has an own property of that name, or no prototype any more, this is an
  ordinary write of an own property. Otherwise it is a call of the setter inherited from
  \<^verbatim>\<open>Object.prototype\<close>: \<^verbatim>\<open>null\<close> removes the prototype of \<^verbatim>\<open>inputs\<close>, \<^verbatim>\<open>Object.prototype\<close>
  leaves it as it is, and any other primitive is ignored; no key is written.
\<close>

definition assign_proto :: "jsvalue option \<Rightarrow> InputObject \<Rightarrow> InputObject" where
  "assign_proto v inputs =
     (if own_properties inputs ''__proto__'' \<noteq> None \<or> \<not> has_object_prototype inputs then
        define_own ''__proto__'' (case v of None \<Rightarrow> ObjectPrototypeObject | Some p \<Rightarrow> Data p) inputs
      else if v = Some JNull then inputs\<lparr>has_object_prototype := False\<rparr>
      else inputs)"

text \<open>\<^verbatim>\<open>inputs[port.label] = sourceNode.output[port.label] ?? null\<close>.\<close>

definition copy_field :: "string \<Rightarrow> jsobject \<Rightarrow> InputObject \<Rightarrow> InputObject" where
  "copy_field label out inputs =
     (if label = ''__proto__'' then
        assign_proto (case out label of
                        None \<Rightarrow> None
                      | Some JUndefined \<Rightarrow> Some JNull
                      | Some p \<Rightarrow> Some p) inputs
      else define_own label (nullish_to_null (get_property out label)) inputs)"

text \<open>
  \<^verbatim>\<open>Object.assign(inputs, sourceNode.output)\<close>: every own property of the source is
  assigned to \<^verbatim>\<open>inputs\<close> under its own name. The names are distinct and only the
  assignment under \<^verbatim>\<open>__proto__\<close> looks at the rest of \<^verbatim>\<open>inputs\<close> (at that same key and at
  the prototype), so the order of the assignments does not matter.
\<close>

definition object_assign :: "InputObject \<Rightarrow> jsobject \<Rightarrow> InputObject" where
  "object_assign inputs out =
     (let inputs1 = inputs\<lparr>own_properties := (\<lambda>key.
            if key = ''__proto__'' then own_properties inputs key
            else (case out key of
                    Some v \<Rightarrow> Some (Data v)
                  | None \<Rightarrow> own_properties inputs key))\<rparr>
      in case out ''__proto__'' of
           None \<Rightarrow> inputs1
         | Some v \<Rightarrow> assign_proto (Some v) inputs1)"

text \<open>A string used as a condition is truthy exactly when it is not empty; an absent
  optional field is \<^verbatim>\<open>undefined\<close>, which is falsy.\<close>

fun truthy :: "string option \<Rightarrow> bool" where
  "truthy None = False"
| "truthy (Some s) = (s \<noteq> [])"

text \<open>The body of the \<^verbatim>\<open>for (const edge of incomingEdges)\<close> loop.\<close>

definition resolve_edge ::
  "NodeOutput list \<Rightarrow> PortDefinition list \<Rightarrow> WorkflowEdge \<Rightarrow> InputObject \<Rightarrow> InputObject" where
  "resolve_edge completedNodes ports edge inputs =
     (case find (\<lambda>n. out_nodeId n = source edge) completedNodes of
        None \<Rightarrow> inputs
      | Some sourceNode \<Rightarrow>
          (if truthy (targetPort edge) then
             (case find (\<lambda>p. Some (port_id p) = targetPort edge) ports of
                None \<Rightarrow> inputs
              | Some port \<Rightarrow>
                  (if port_label port \<noteq> [] then
                     copy_field (port_label port) (out_output sourceNode) inputs
                   else inputs))
           else object_assign inputs (out_output sourceNode)))"

definition resolveNodeInputs ::
  "ExecutionContext \<Rightarrow> NodeOutput list \<Rightarrow> WorkflowEdge list \<Rightarrow> PortDefinition list \<Rightarrow> InputObject" where
  "resolveNodeInputs context completedNodes edges ports =
     fold (resolve_edge completedNodes ports)
       (filter (\<lambda>edge. target edge = ctx_nodeId context) edges) empty_object"


section \<open>Graph helpers (schema module: buildAdjacencyList, detectCycle, topologicalSort)\<close>

text \<open>
  A JavaScript \<^verbatim>\<open>Map<string, V>\<close> is an insertion-ordered association list: \<^verbatim>\<open>get\<close>
  is \<^const>\<open>map_of\<close>, and \<^verbatim>\<open>set\<close> is \<^const>\<open>AList.update\<close> (an existing key keeps its
  position, a new key goes to the end).
\<close>

text \<open>\<^verbatim>\<open>m.get(k) || []\<close> (an array, even an empty one, is truthy).\<close>

definition get_or_empty :: "(string \<times> 'a list) list \<Rightarrow> string \<Rightarrow> 'a list" where
  "get_or_empty m k = (case map_of m k of None \<Rightarrow> [] | Some xs \<Rightarrow> xs)"

definition buildAdjacencyList ::
  "WorkflowNode list \<Rightarrow> WorkflowEdge list \<Rightarrow> (string \<times> string list) list" where
  "buildAdjacencyList nodes edges =
     fold (\<lambda>edge adjacency.
             AList.update (source edge) (get_or_empty adjacency (source edge) @ [target edge]) adjacency)
       edges
       (fold (\<lambda>node adjacency. AList.update (node_id node) [] adjacency) nodes [])"

text \<open>
  \<^verbatim>\<open>hasCycleUtil\<close> is the recursive closure of \<^verbatim>\<open>detectCycle\<close>; the sets \<^verbatim>\<open>visited\<close> and
  \<^verbatim>\<open>recursionStack\<close> it mutates are threaded through as a pair. The first argument
  bounds the depth of the recursion (the call stack): \<open>None\<close> means the bound was hit.
  \<open>hasCycleLoop\<close> is the \<^verbatim>\<open>for (const neighbor of neighbors)\<close> loop with its early return;
  the outer \<^verbatim>\<open>for (const node of nodes)\<close> loop of \<^verbatim>\<open>detectCycle\<close> has the same shape.
\<close>

fun hasCycleUtil ::
    "nat \<Rightarrow> (string \<times> string list) list \<Rightarrow> string \<Rightarrow> string set \<times> string set
      \<Rightarrow> (bool \<times> string set \<times> string set) option"
  and hasCycleLoop ::
    "nat \<Rightarrow> (string \<times> string list) list \<Rightarrow> string list \<Rightarrow> string set \<times> string set
      \<Rightarrow> (bool \<times> string set \<times> string set) option"
where
  "hasCycleUtil 0 adjacency nodeId s = None"
| "hasCycleUtil (Suc k) adjacency nodeId (visited, recursionStack) =
     (if nodeId \<in> recursionStack then Some (True, visited, recursionStack)
      else if nodeId \<in> visited then Some (False, visited, recursionStack)
      else
        (case hasCycleLoop k adjacency (get_or_empty adjacency nodeId)
                (insert nodeId visited, insert nodeId recursionStack) of
           None \<Rightarrow> None
         | Some (True, s') \<Rightarrow> Some (True, s')
         | Some (False, visited', recursionStack') \<Rightarrow>
             Some (False, visited', recursionStack' - {nodeId})))"
| "hasCycleLoop k adjacency [] s = Some (False, s)"
| "hasCycleLoop k adjacency (neighbor # rest) s =
     (case hasCycleUtil k adjacency neighbor s of
        None \<Rightarrow> None
      | Some (True, s') \<Rightarrow> Some (True, s')
      | Some (False, s') \<Rightarrow> hasCycleLoop k adjacency rest s')"

text \<open>The depth bound handed to the traversals: one more than the number of node and edge
  records, which is proved below to be never hit.\<close>

definition dfs_depth :: "WorkflowNode list \<Rightarrow> WorkflowEdge list \<Rightarrow> nat" where
  "dfs_depth nodes edges = Suc (length nodes + length edges)"

definition detectCycle :: "WorkflowNode list \<Rightarrow> WorkflowEdge list \<Rightarrow> bool option" where
  "detectCycle nodes edges =
     (case hasCycleLoop (dfs_depth nodes edges) (buildAdjacencyList nodes edges)
             (map node_id nodes) ({}, {}) of
        None \<Rightarrow> None
      | Some (b, s) \<Rightarrow> Some b)"

text \<open>\<^verbatim>\<open>m.get(k) || 0\<close> on the in-degree map.\<close>

definition get_or_zero :: "(string \<times> int) list \<Rightarrow> string \<Rightarrow> int" where
  "get_or_zero m k = (case map_of m k of None \<Rightarrow> 0 | Some d \<Rightarrow> d)"

text \<open>The body of \<^verbatim>\<open>neighbors.forEach\<close> in the main loop of \<^verbatim>\<open>topologicalSort\<close>, on the
  pair (inDegree, queue).\<close>

definition relax :: "string \<Rightarrow> (string \<times> int) list \<times> string list \<Rightarrow> (string \<times> int) list \<times> string list" where
  "relax neighbor s =
     (let degree = get_or_zero (fst s) neighbor - 1;
          inDegree = AList.update neighbor degree (fst s)
      in (inDegree, if degree = 0 then snd s @ [neighbor] else snd s))"

definition positive_entries :: "(string \<times> int) list \<Rightarrow> nat" where
  "positive_entries m = length (filter (\<lambda>p. 0 < snd p) m)"

text \<open>The \<^verbatim>\<open>while (queue.length > 0)\<close> loop, on (queue, inDegree, result).\<close>

function kahn_loop ::
  "(string \<times> string list) list \<Rightarrow> (string \<times> WorkflowNode) list
    \<Rightarrow> string list \<times> (string \<times> int) list \<times> WorkflowNode list \<Rightarrow> WorkflowNode list" where
  "kahn_loop adjacency nodeMap ([], inDegree, result) = result"
| "kahn_loop adjacency nodeMap (nodeId # queue, inDegree, result) =
     (let result' = (case map_of nodeMap nodeId of Some node \<Rightarrow> result @ [node] | None \<Rightarrow> result);
          s = fold relax (get_or_empty adjacency nodeId) (inDegree, queue)
      in kahn_loop adjacency nodeMap (snd s, fst s, result'))"
  by pat_completeness auto
termination
proof (relation "measure (\<lambda>(adjacency, nodeMap, queue, inDegree, result).
                   length queue + positive_entries inDegree)")
  show "wf (measure (\<lambda>(adjacency, nodeMap, queue, inDegree, result).
                   length queue + positive_entries inDegree))"
    by simp
next
  fix adjacency :: "(string \<times> string list) list"
    and nodeMap :: "(string \<times> WorkflowNode) list"
    and nodeId queue inDegree and result :: "WorkflowNode list" and x xa
  assume xa: "xa = fold relax (get_or_empty adjacency nodeId) (inDegree, queue)"
  have upd: "positive_entries (AList.update k (get_or_zero m k - 1) m)
               + (if get_or_zero m k - 1 = 0 then 1 else 0) \<le> positive_entries m" for k m
  proof (induction m)
    case Nil
    then show ?case by (simp add: positive_entries_def get_or_zero_def)
  next
    case (Cons p m)
    then show ?case
      by (cases p) (auto simp: positive_entries_def get_or_zero_def split: option.splits)
  qed
  have step: "length (snd (relax n s)) + positive_entries (fst (relax n s))
                \<le> length (snd s) + positive_entries (fst s)" for n s
    using upd [of n "fst s"] by (auto simp: relax_def Let_def split: if_splits)
  have "length (snd (fold relax ns s)) + positive_entries (fst (fold relax ns s))
          \<le> length (snd s) + positive_entries (fst s)" for ns s
  proof (induction ns arbitrary: s)
    case Nil
    then show ?case by simp
  next
    case (Cons n ns)
    have "length (snd (fold relax ns (relax n s))) + positive_entries (fst (fold relax ns (relax n s)))
            \<le> length (snd (relax n s)) + positive_entries (fst (relax n s))"
      by (rule Cons.IH)
    also have "\<dots> \<le> length (snd s) + positive_entries (fst s)"
      by (rule step)
    finally show ?case by simp
  qed
  from this [of "get_or_empty adjacency nodeId" "(inDegree, queue)"]
  show "((adjacency, nodeMap, snd xa, fst xa, x), adjacency, nodeMap, nodeId # queue, inDegree, result)
          \<in> measure (\<lambda>(adjacency, nodeMap, queue, inDegree, result).
                   length queue + positive_entries inDegree)"
    by (simp add: xa)
qed

declare kahn_loop.simps [simp del]

definition topologicalSort :: "WorkflowNode list \<Rightarrow> WorkflowEdge list \<Rightarrow> WorkflowNode list option" where
  "topologicalSort nodes edges =
     (let adjacency = buildAdjacencyList nodes edges;
          inDegree0 = fold (\<lambda>node m. AList.update (node_id node) 0 m) nodes [];
          inDegree = fold (\<lambda>edge m. AList.update (target edge) (get_or_zero m (target edge) + 1) m)
                       edges inDegree0;
          queue = map node_id (filter (\<lambda>node. map_of inDegree (node_id node) = Some 0) nodes);
          nodeMap = fold (\<lambda>n m. AList.update (node_id n) n m) nodes [];
          result = kahn_loop adjacency nodeMap (queue, inDegree, [])
      in if length result = length nodes then Some result else None)"


section \<open>Validation (schema module: validateWorkflowDAG)\<close>

record ValidationResult =
  valid :: bool
  errors :: "string list"
  warnings :: "string list"

text \<open>\<^verbatim>\<open>(edgeMap.get(key) || 0) + 1\<close> on the map that counts edges per \<^verbatim>\<open>source->target\<close> key.\<close>

definition count_edge :: "string \<Rightarrow> (string \<times> nat) list \<Rightarrow> (string \<times> nat) list" where
  "count_edge key edgeMap =
     AList.update key ((case map_of edgeMap key of None \<Rightarrow> 0 | Some c \<Rightarrow> c) + 1) edgeMap"

definition edge_key :: "WorkflowEdge \<Rightarrow> string" where
  "edge_key edge = source edge @ ''->'' @ target edge"

definition validateWorkflowDAG :: "WorkflowNode list \<Rightarrow> WorkflowEdge list \<Rightarrow> ValidationResult option" where
  "validateWorkflowDAG nodes edges =
     (case detectCycle nodes edges of
        None \<Rightarrow> None
      | Some hasCycle \<Rightarrow>
          (let errors0 = (if hasCycle
                          then [''Workflow contains a cycle - workflows must be acyclic (DAG)'']
                          else []);
               nodeIds = set (map node_id nodes);
               errors1 = errors0 @ concat (map (\<lambda>edge.
                   (if source edge \<notin> nodeIds
                    then [''Edge '' @ edge_id edge @ '' references non-existent source node: '' @ source edge]
                    else []) @
                   (if target edge \<notin> nodeIds
                    then [''Edge '' @ edge_id edge @ '' references non-existent target node: '' @ target edge]
                    else [])) edges);
               connectedNodes = set (map source edges) \<union> set (map target edges);
               warnings0 = concat (map (\<lambda>node.
                   if node_id node \<notin> connectedNodes \<and> length nodes > 1
                   then [''Node '' @ node_id node @ '' ('' @ node_label node
                           @ '') is not connected to any other nodes'']
                   else []) nodes);
               edgeMap = fold (\<lambda>edge. count_edge (edge_key edge)) edges [];
               warnings1 = warnings0 @ concat (map (\<lambda>(key, count).
                   if count > 1 then [''Multiple edges exist between the same nodes: '' @ key] else [])
                   edgeMap)
           in Some \<lparr>valid = (length errors1 = 0), errors = errors1, warnings = warnings1\<rparr>))"

section \<open>Planning (executor module: checkForCycles, findCycle, buildExecutionPlan)\<close>

text \<open>
  \<^verbatim>\<open>dfs\<close> is the recursive closure of \<^verbatim>\<open>findCycle\<close>, on (visited, recursionStack, path),
  with the same depth bound as \<^const>\<open>hasCycleUtil\<close>. \<^verbatim>\<open>path.slice(path.indexOf(nodeId))\<close> drops
  the elements before the first occurrence; \<^verbatim>\<open>path.pop()\<close> is \<^const>\<open>butlast\<close>.
\<close>

fun dfs ::
    "nat \<Rightarrow> (string \<times> string list) list \<Rightarrow> string \<Rightarrow> string set \<times> string set \<times> string list
      \<Rightarrow> (string list option \<times> string set \<times> string set \<times> string list) option"
  and dfs_loop ::
    "nat \<Rightarrow> (string \<times> string list) list \<Rightarrow> string list \<Rightarrow> string set \<times> string set \<times> string list
      \<Rightarrow> (string list option \<times> string set \<times> string set \<times> string list) option"
where
  "dfs 0 adjacency nodeId s = None"
| "dfs (Suc k) adjacency nodeId (visited, recursionStack, path) =
     (if nodeId \<in> recursionStack then
        (if nodeId \<in> set path
         then Some (Some (dropWhile (\<lambda>x. x \<noteq> nodeId) path @ [nodeId]), visited, recursionStack, path)
         else Some (Some [nodeId], visited, recursionStack, path))
      else if nodeId \<in> visited then Some (None, visited, recursionStack, path)
      else
        (case dfs_loop k adjacency (get_or_empty adjacency nodeId)
                (insert nodeId visited, insert nodeId recursionStack, path @ [nodeId]) of
           None \<Rightarrow> None
         | Some (Some cycle, s') \<Rightarrow> Some (Some cycle, s')
         | Some (None, visited', recursionStack', path') \<Rightarrow>
             Some (None, visited', recursionStack' - {nodeId}, butlast path')))"
| "dfs_loop k adjacency [] s = Some (None, s)"
| "dfs_loop k adjacency (neighbor # rest) s =
     (case dfs k adjacency neighbor s of
        None \<Rightarrow> None
      | Some (Some cycle, s') \<Rightarrow> Some (Some cycle, s')
      | Some (None, s') \<Rightarrow> dfs_loop k adjacency rest s')"

definition findCycle :: "WorkflowNode list \<Rightarrow> WorkflowEdge list \<Rightarrow> string list option" where
  "findCycle nodes edges =
     (case dfs_loop (dfs_depth nodes edges) (buildAdjacencyList nodes edges)
             (map node_id nodes) ({}, {}, []) of
        None \<Rightarrow> None
      | Some (Some cycle, s) \<Rightarrow> Some cycle
      | Some (None, s) \<Rightarrow> Some [])"

text \<open>The result \<^verbatim>\<open>{ hasCycle, cycle? }\<close> as a pair.\<close>

definition checkForCycles ::
  "WorkflowNode list \<Rightarrow> WorkflowEdge list \<Rightarrow> (bool \<times> string list option) option" where
  "checkForCycles nodes edges =
     (case detectCycle nodes edges of
        None \<Rightarrow> None
      | Some True \<Rightarrow>
          (case findCycle nodes edges of
             None \<Rightarrow> None
           | Some cycle \<Rightarrow> Some (True, Some cycle))
      | Some False \<Rightarrow> Some (False, None))"

text \<open>\<^verbatim>\<open>Array.prototype.join\<close>.\<close>

fun join :: "string \<Rightarrow> string list \<Rightarrow> string" where
  "join sep [] = []"
| "join sep [x] = x"
| "join sep (x # y # ys) = x @ sep @ join sep (y # ys)"

record ExecutionPlan =
  plan_nodes :: "ExecutionContext list"
  plan_valid :: bool
  plan_errors :: "string list"

definition buildDependencyMap :: "WorkflowEdge list \<Rightarrow> (string \<times> string list) list" where
  "buildDependencyMap edges =
     fold (\<lambda>edge dependencyMap.
             (let deps = get_or_empty dependencyMap (target edge)
              in AList.update (target edge)
                   (if source edge \<in> set deps then deps else deps @ [source edge]) dependencyMap))
       edges []"

text \<open>\<^verbatim>\<open>cycle?.join(' -> ') || 'unknown'\<close>: an absent cycle and an empty joined string are
  both falsy.\<close>

definition cycle_text :: "string list option \<Rightarrow> string" where
  "cycle_text cycle =
     (case cycle of
        None \<Rightarrow> ''unknown''
      | Some c \<Rightarrow> (if join '' -> '' c = [] then ''unknown'' else join '' -> '' c))"

definition buildExecutionPlan :: "Workflow \<Rightarrow> ExecutionPlan option" where
  "buildExecutionPlan workflow =
     (let nodes = wf_nodes workflow; edges = wf_edges workflow in
      case checkForCycles nodes edges of
        None \<Rightarrow> None
      | Some (hasCycle, cycle) \<Rightarrow>
          if hasCycle then
            Some \<lparr>plan_nodes = [], plan_valid = False,
                  plan_errors = [''Workflow contains a cycle: '' @ cycle_text cycle]\<rparr>
          else
            (case topologicalSort nodes edges of
               None \<Rightarrow>
                 Some \<lparr>plan_nodes = [], plan_valid = False,
                       plan_errors = [''Failed to topologically sort nodes (possible cycle)'']\<rparr>
             | Some sortedNodes \<Rightarrow>
                 (let dependencyMap = buildDependencyMap edges;
                      contexts = map (\<lambda>node.
                          \<lparr>ctx_nodeId = node_id node, ctx_node = node, ctx_inputs = Map.empty,
                           dependencies = get_or_empty dependencyMap (node_id node)\<rparr>) sortedNodes
                  in Some \<lparr>plan_nodes = contexts, plan_valid = True, plan_errors = []\<rparr>)))"


section \<open>The runner (WorkflowRunner)\<close>

text \<open>
  What the model leaves out of the runner: wall-clock readings (\<^verbatim>\<open>startedAt\<close>,
  \<^verbatim>\<open>completedAt\<close>, \<^verbatim>\<open>timestamp\<close>, \<^verbatim>\<open>duration\<close>) and the stack trace stored as
  \<^verbatim>\<open>details\<close>; none of them is read back by the control flow. Everything that can
  differ from run to run is an input of the model:
  \<^item> the process-wide registry, a lookup from type tag to executor;
  \<^item> an executor, as the way its promise settles in the race against the timer;
  \<^item> the listener, which is handed an event and returns or throws;
  \<^item> the clock and the random string read by \<^verbatim>\<open>generateExecutionId\<close>.
\<close>

datatype RunStatus = Pending | Running | Success | Error | Cancelled

datatype ExecutionEventType = EvQueued | EvRunning | EvSucceeded | EvFailed | EvCancelled

text \<open>A thrown value: an \<^verbatim>\<open>Error\<close> with its message and, when it carries a textual
  \<^verbatim>\<open>code\<close> property, that code; or anything that is not an \<^verbatim>\<open>Error\<close>.\<close>

datatype thrown = ErrorObject string "string option" | NotAnError

record ErrorInfo =
  err_message :: string
  err_code :: "string option"

record RunResult =
  rr_nodeId :: string
  rr_status :: RunStatus
  rr_output :: "jsobject option"
  rr_error :: "ErrorInfo option"

record WorkflowExecution =
  workflowId :: string
  we_executionId :: string
  we_status :: RunStatus
  we_results :: "RunResult list"

record ExecutionEvent =
  ev_nodeId :: string
  ev_status :: ExecutionEventType
  ev_output :: "jsobject option"
  ev_error :: "ErrorInfo option"
  ev_logs :: "string list option"

record NodeExecutionConfig =
  cfg_nodeId :: string
  cfg_nodeType :: string
  cfg_nodeData :: jsobject

text \<open>How the promise returned by an executor fares in \<^verbatim>\<open>Promise.race\<close> against the
  timer: it resolves first, rejects (or throws) first, or the timer fires first.\<close>

datatype settlement = Resolves jsobject | Rejects thrown | TimerFirst

type_synonym NodeExecutor = "NodeExecutionConfig \<Rightarrow> InputObject \<Rightarrow> settlement"

type_synonym ExecutionEventListener = "ExecutionEvent \<Rightarrow> thrown option"

record RunnerConfig =
  timeoutMs :: "nat option"
  onEvent :: "ExecutionEventListener option"
  concurrency :: "nat option"

text \<open>The fields of the class; \<open>delivered\<close>, \<open>invoked\<close> and \<open>attempted\<close> are not fields of
  the source but the observable trace of a run: the events handed to the listener, the
  nodes whose executor was called, and the nodes for which \<^verbatim>\<open>executeNode\<close> got past its
  lookup, each in order.\<close>

record WorkflowRunner =
  workflow :: Workflow
  config :: RunnerConfig
  executionId :: string
  completedNodes :: "NodeOutput list"
  results :: "(string \<times> RunResult) list"
  logs :: "(string \<times> string list) list"
  delivered :: "ExecutionEvent list"
  invoked :: "string list"
  attempted :: "string list"

text \<open>Decimal rendering of a number in a template literal.\<close>

fun show_nat :: "nat \<Rightarrow> string" where
  "show_nat n = (if n < 10 then [''0123456789'' ! n]
                 else show_nat (n div 10) @ [''0123456789'' ! (n mod 10)])"

declare show_nat.simps [simp del]

text \<open>\<^verbatim>\<open>exec-${Date.now()}-${Math.random().toString(36).substring(2, 9)}\<close>: \<open>now\<close> is the
  clock reading and \<open>rnd\<close> the base-36 rendering of the random number.\<close>

definition generateExecutionId :: "nat \<Rightarrow> string \<Rightarrow> string" where
  "generateExecutionId now rnd = ''exec-'' @ show_nat now @ ''-'' @ take 7 (drop 2 rnd)"

text \<open>The constructor: the defaults are overridden by the fields the caller's configuration
  has.\<close>

definition new_WorkflowRunner :: "Workflow \<Rightarrow> RunnerConfig \<Rightarrow> nat \<Rightarrow> string \<Rightarrow> WorkflowRunner" where
  "new_WorkflowRunner w cfg now rnd =
     \<lparr>workflow = w,
      config = \<lparr>timeoutMs = (case timeoutMs cfg of None \<Rightarrow> Some 30000 | Some t \<Rightarrow> Some t),
                onEvent = onEvent cfg,
                concurrency = (case concurrency cfg of None \<Rightarrow> Some 1 | Some c \<Rightarrow> Some c)\<rparr>,
      executionId = generateExecutionId now rnd,
      completedNodes = [], results = [], logs = [],
      delivered = [], invoked = [], attempted = []\<rparr>"

definition emitEvent :: "ExecutionEvent \<Rightarrow> WorkflowRunner \<Rightarrow> (thrown + unit) \<times> WorkflowRunner" where
  "emitEvent event this =
     (case onEvent (config this) of
        None \<Rightarrow> (Inr (), this)
      | Some listener \<Rightarrow>
          (case listener event of None \<Rightarrow> Inr () | Some e \<Rightarrow> Inl e,
           this\<lparr>delivered := delivered this @ [event]\<rparr>))"

definition addLog :: "string \<Rightarrow> string \<Rightarrow> WorkflowRunner \<Rightarrow> WorkflowRunner" where
  "addLog nodeId message this =
     (let logs0 = (if map_of (logs this) nodeId = None then AList.update nodeId [] (logs this)
                   else logs this)
      in this\<lparr>logs := AList.update nodeId (get_or_empty logs0 nodeId @ [message]) logs0\<rparr>)"

text \<open>\<^verbatim>\<open>this.config.timeoutMs || 30000\<close>, and the outcome of the race.\<close>

definition executeWithTimeout ::
  "WorkflowRunner \<Rightarrow> NodeExecutor \<Rightarrow> NodeExecutionConfig \<Rightarrow> InputObject \<Rightarrow> thrown + jsobject" where
  "executeWithTimeout this executor cfg inputs =
     (let timeout = (case timeoutMs (config this) of None \<Rightarrow> 30000 | Some t \<Rightarrow> if t = 0 then 30000 else t)
      in case executor cfg inputs of
           Resolves out \<Rightarrow> Inr out
         | Rejects e \<Rightarrow> Inl e
         | TimerFirst \<Rightarrow> Inl (ErrorObject (''Execution timeout after '' @ show_nat timeout @ ''ms'') None))"

text \<open>The \<^verbatim>\<open>try\<close> block of \<^verbatim>\<open>executeNode\<close>: \<open>Inl e\<close> is control leaving it with \<open>e\<close>
  thrown, together with the object as mutated up to that point.\<close>

definition executeNode_try ::
  "(string \<Rightarrow> NodeExecutor option) \<Rightarrow> string \<Rightarrow> WorkflowNode \<Rightarrow> ExecutionContext \<Rightarrow> WorkflowRunner
     \<Rightarrow> (thrown + unit) \<times> WorkflowRunner" where
  "executeNode_try registry nodeId node ctx this =
     (case emitEvent \<lparr>ev_nodeId = nodeId, ev_status = EvQueued, ev_output = None,
                       ev_error = None, ev_logs = None\<rparr> this of
        (Inl e, this1) \<Rightarrow> (Inl e, this1)
      | (Inr u, this1) \<Rightarrow>
          (let currentResult = (case map_of (results this1) nodeId of
                                  Some r \<Rightarrow> r
                                | None \<Rightarrow> \<lparr>rr_nodeId = nodeId, rr_status = Pending,
                                            rr_output = None, rr_error = None\<rparr>);
               this2 = this1\<lparr>results :=
                          AList.update nodeId (currentResult\<lparr>rr_status := Running\<rparr>) (results this1)\<rparr>
           in case emitEvent \<lparr>ev_nodeId = nodeId, ev_status = EvRunning, ev_output = None,
                               ev_error = None, ev_logs = None\<rparr> this2 of
                (Inl e, this3) \<Rightarrow> (Inl e, this3)
              | (Inr u, this3) \<Rightarrow>
                  (let inputs = resolveNodeInputs ctx (completedNodes this3)
                                  (wf_edges (workflow this3)) (wf_ports (workflow this3))
                   in case registry (node_type node) of
                        None \<Rightarrow>
                          (Inl (ErrorObject (''No executor registered for node type: '' @ node_type node) None),
                           this3)
                      | Some executor \<Rightarrow>
                          (let this4 = this3\<lparr>invoked := invoked this3 @ [nodeId]\<rparr> in
                           case executeWithTimeout this4 executor
                                  \<lparr>cfg_nodeId = nodeId, cfg_nodeType = node_type node,
                                   cfg_nodeData = node_data node\<rparr> inputs of
                             Inl e \<Rightarrow> (Inl e, this4)
                           | Inr out \<Rightarrow>
                               (let this5 = this4\<lparr>completedNodes :=
                                               completedNodes this4 @ [\<lparr>out_nodeId = nodeId, out_output = out\<rparr>]\<rparr>;
                                    this6 = this5\<lparr>results := AList.update nodeId
                                               \<lparr>rr_nodeId = nodeId, rr_status = Success,
                                                rr_output = Some out, rr_error = None\<rparr> (results this5)\<rparr>
                                in emitEvent \<lparr>ev_nodeId = nodeId, ev_status = EvSucceeded,
                                              ev_output = Some out, ev_error = None,
                                              ev_logs = Some (get_or_empty (logs this6) nodeId)\<rparr> this6)))))"

text \<open>\<^verbatim>\<open>executeNode\<close>: the lookup, the \<^verbatim>\<open>try\<close> block and the \<^verbatim>\<open>catch\<close> block. An exception
  thrown inside the \<^verbatim>\<open>catch\<close> block (by the listener) leaves the method.\<close>

definition executeNode ::
  "(string \<Rightarrow> NodeExecutor option) \<Rightarrow> string \<Rightarrow> ExecutionContext \<Rightarrow> WorkflowRunner
     \<Rightarrow> (thrown + unit) \<times> WorkflowRunner" where
  "executeNode registry nodeId ctx this =
     (case find (\<lambda>n. node_id n = nodeId) (wf_nodes (workflow this)) of
        None \<Rightarrow> (Inr (), this)
      | Some node \<Rightarrow>
          (case executeNode_try registry nodeId node ctx (this\<lparr>attempted := attempted this @ [nodeId]\<rparr>) of
             (Inr u, this1) \<Rightarrow> (Inr (), this1)
           | (Inl error, this1) \<Rightarrow>
               (let errorMessage = (case error of ErrorObject m c \<Rightarrow> m | NotAnError \<Rightarrow> ''Unknown error'');
                    errorCode = (case error of ErrorObject m (Some c) \<Rightarrow> c | _ \<Rightarrow> ''EXECUTION_ERROR'');
                    this2 = this1\<lparr>results := AList.update nodeId
                               \<lparr>rr_nodeId = nodeId, rr_status = Error, rr_output = None,
                                rr_error = Some \<lparr>err_message = errorMessage, err_code = Some errorCode\<rparr>\<rparr>
                               (results this1)\<rparr>
                in case emitEvent \<lparr>ev_nodeId = nodeId, ev_status = EvFailed, ev_output = None,
                                    ev_error = Some \<lparr>err_message = errorMessage, err_code = Some errorCode\<rparr>,
                                    ev_logs = Some (get_or_empty (logs this2) nodeId)\<rparr> this2 of
                     (Inl e, this3) \<Rightarrow> (Inl e, this3)
                   | (Inr u, this3) \<Rightarrow> (Inr (), addLog nodeId (''Error: '' @ errorMessage) this3))))"

text \<open>The loop \<^verbatim>\<open>for (const context of plan.nodes) await this.executeNode(...)\<close>.\<close>

fun execute_all ::
  "(string \<Rightarrow> NodeExecutor option) \<Rightarrow> ExecutionContext list \<Rightarrow> WorkflowRunner
     \<Rightarrow> (thrown + unit) \<times> WorkflowRunner" where
  "execute_all registry [] this = (Inr (), this)"
| "execute_all registry (ctx # rest) this =
     (case executeNode registry (ctx_nodeId ctx) ctx this of
        (Inl e, this1) \<Rightarrow> (Inl e, this1)
      | (Inr u, this1) \<Rightarrow> execute_all registry rest this1)"

text \<open>The \<^verbatim>\<open>try\<close> block of \<^verbatim>\<open>run\<close>. The outer \<open>None\<close> is the depth bound of the cycle check
  being hit, which is proved below never to happen.\<close>

definition run_try ::
  "(string \<Rightarrow> NodeExecutor option) \<Rightarrow> WorkflowRunner
     \<Rightarrow> ((thrown + WorkflowExecution) \<times> WorkflowRunner) option" where
  "run_try registry this =
     (case buildExecutionPlan (workflow this) of
        None \<Rightarrow> None
      | Some plan \<Rightarrow>
          Some
            (if \<not> plan_valid plan then
               (Inr \<lparr>workflowId = workflow_id (workflow this), we_executionId = executionId this,
                     we_status = Error,
                     we_results = map (\<lambda>(index, error).
                         \<lparr>rr_nodeId = ''error-'' @ show_nat index, rr_status = Error, rr_output = None,
                          rr_error = Some \<lparr>err_message = error, err_code = Some ''PLAN_ERROR''\<rparr>\<rparr>)
                       (enumerate 0 (plan_errors plan))\<rparr>,
                this)
             else
               (let this1 = fold (\<lambda>ctx this.
                                this\<lparr>results := AList.update (ctx_nodeId ctx)
                                   \<lparr>rr_nodeId = ctx_nodeId ctx, rr_status = Pending,
                                    rr_output = None, rr_error = None\<rparr> (results this)\<rparr>)
                              (plan_nodes plan) this
                in case execute_all registry (plan_nodes plan) this1 of
                     (Inl e, this2) \<Rightarrow> (Inl e, this2)
                   | (Inr u, this2) \<Rightarrow>
                       (let hasErrors = (\<exists>r \<in> set (map snd (results this2)). rr_status r = Error)
                        in (Inr \<lparr>workflowId = workflow_id (workflow this2),
                                 we_executionId = executionId this2,
                                 we_status = (if hasErrors then Error else Success),
                                 we_results = map snd (results this2)\<rparr>,
                            this2)))))"

text \<open>\<^verbatim>\<open>run\<close>: whatever is thrown inside the \<^verbatim>\<open>try\<close> block becomes the single
  \<^verbatim>\<open>runner\<close> result.\<close>

definition run ::
  "(string \<Rightarrow> NodeExecutor option) \<Rightarrow> WorkflowRunner \<Rightarrow> (WorkflowExecution \<times> WorkflowRunner) option" where
  "run registry this =
     (case run_try registry this of
        None \<Rightarrow> None
      | Some (Inr execution, this1) \<Rightarrow> Some (execution, this1)
      | Some (Inl error, this1) \<Rightarrow>
          Some (\<lparr>workflowId = workflow_id (workflow this1), we_executionId = executionId this1,
                 we_status = Error,
                 we_results =
                   [\<lparr>rr_nodeId = ''runner'', rr_status = Error, rr_output = None,
                     rr_error = Some \<lparr>err_message = (case error of ErrorObject m c \<Rightarrow> m
                                                        | NotAnError \<Rightarrow> ''Unknown error''),
                                      err_code = Some ''RUNNER_ERROR''\<rparr>\<rparr>]\<rparr>,
                this1))"

section \<open>Concrete inputs\<close>

text \<open>Small workflows, configurations and registries on which the theorems below are
  instantiated.\<close>

definition ex_node :: "string \<Rightarrow> string \<Rightarrow> WorkflowNode" where
  "ex_node i t = \<lparr>node_id = i, node_type = t, node_label = ''Node '' @ i, node_data = Map.empty\<rparr>"

definition ex_edge :: "string \<Rightarrow> string \<Rightarrow> string option \<Rightarrow> WorkflowEdge" where
  "ex_edge s t p = \<lparr>edge_id = s @ ''->'' @ t, source = s, target = t, sourcePort = None,
                    targetPort = p, edge_label = None\<rparr>"





definition ex_nodes3 :: "WorkflowNode list" where
  "ex_nodes3 = [ex_node ''A'' ''text'', ex_node ''B'' ''text'', ex_node ''C'' ''text'']"

definition ex_edges_dup :: "WorkflowEdge list" where
  "ex_edges_dup = [ex_edge ''A'' ''B'' None, ex_edge ''A'' ''B'' None, ex_edge ''A'' ''X'' None]"

definition ex_workflow :: "WorkflowNode list \<Rightarrow> WorkflowEdge list \<Rightarrow> Workflow" where
  "ex_workflow ns es = \<lparr>workflow_id = ''test-workflow'', wf_nodes = ns, wf_edges = es, wf_ports = []\<rparr>"

definition ex_cyclic :: Workflow where
  "ex_cyclic = ex_workflow [ex_node ''A'' ''text'', ex_node ''B'' ''text'']
                 [ex_edge ''A'' ''B'' None, ex_edge ''B'' ''A'' None]"

definition ex_failing_first :: Workflow where
  "ex_failing_first = ex_workflow [ex_node ''A'' ''failing'', ex_node ''B'' ''text'']
                 [ex_edge ''A'' ''B'' None]"

definition ex_single :: Workflow where
  "ex_single = ex_workflow [ex_node ''A'' ''text''] []"

definition ex_self_loop :: Workflow where
  "ex_self_loop = ex_workflow [ex_node ''A'' ''text''] [ex_edge ''A'' ''A'' None]"

definition ex_two :: Workflow where
  "ex_two = ex_workflow [ex_node ''A'' ''text'', ex_node ''B'' ''text''] []"

definition ex_branching :: Workflow where
  "ex_branching = ex_workflow [ex_node ''A'' ''text'', ex_node ''C'' ''text'', ex_node ''B'' ''text'']
                    [ex_edge ''A'' ''B'' None, ex_edge ''A'' ''C'' None]"

definition ex_dangling_source :: Workflow where
  "ex_dangling_source = ex_workflow [ex_node ''B'' ''text''] [ex_edge ''X'' ''B'' None]"

definition ex_dangling_target :: Workflow where
  "ex_dangling_target = ex_workflow [ex_node ''A'' ''text''] [ex_edge ''A'' ''Y'' None]"

definition ex_dangling_pair :: Workflow where
  "ex_dangling_pair = ex_workflow [ex_node ''A'' ''text''] [ex_edge ''X'' ''Y'' None]"

definition ex_dangling_relay :: Workflow where
  "ex_dangling_relay = ex_workflow [ex_node ''A'' ''text'', ex_node ''B'' ''text'']
                         [ex_edge ''A'' ''X'' None, ex_edge ''X'' ''B'' None]"

definition ex_dangling_both :: Workflow where
  "ex_dangling_both = ex_workflow [ex_node ''B'' ''text''] [ex_edge ''X'' ''B'' None, ex_edge ''B'' ''Y'' None]"

definition ex_registry :: "string \<Rightarrow> NodeExecutor option" where
  "ex_registry t =
     (if t = ''text'' then Some (\<lambda>cfg inputs. Resolves [''output'' \<mapsto> JString ''test-result''])
      else if t = ''failing'' then Some (\<lambda>cfg inputs. Rejects (ErrorObject ''Deliberate test error'' None))
      else None)"

definition ex_config :: "ExecutionEventListener option \<Rightarrow> RunnerConfig" where
  "ex_config l = \<lparr>timeoutMs = None, onEvent = l, concurrency = None\<rparr>"

definition ex_quiet :: ExecutionEventListener where
  "ex_quiet ev = None"

definition ex_throws_on :: "ExecutionEventType \<Rightarrow> ExecutionEventListener" where
  "ex_throws_on s ev = (if ev_status ev = s then Some (ErrorObject ''listener failed'' None) else None)"

definition ex_runner :: "Workflow \<Rightarrow> ExecutionEventListener option \<Rightarrow> WorkflowRunner" where
  "ex_runner w l = new_WorkflowRunner w (ex_config l) 0 ''0.abc''"

definition plan_order :: "Workflow \<Rightarrow> (bool \<times> string list) option" where
  "plan_order w = map_option (\<lambda>plan. (plan_valid plan, map ctx_nodeId (plan_nodes plan))) (buildExecutionPlan w)"

definition plan_errors_of :: "Workflow \<Rightarrow> string list option" where
  "plan_errors_of w = map_option plan_errors (buildExecutionPlan w)"

definition attempts_of :: "(WorkflowExecution \<times> WorkflowRunner) option \<Rightarrow> string list option" where
  "attempts_of r = map_option (\<lambda>(execution, this). attempted this) r"

definition events_of :: "(WorkflowExecution \<times> WorkflowRunner) option \<Rightarrow> (string \<times> ExecutionEventType) list option" where
  "events_of r = map_option (\<lambda>(execution, this). map (\<lambda>e. (ev_nodeId e, ev_status e)) (delivered this)) r"

definition result_ids_of :: "(WorkflowExecution \<times> WorkflowRunner) option \<Rightarrow> string list option" where
  "result_ids_of r = map_option (\<lambda>(execution, this). map rr_nodeId (we_results execution)) r"

definition status_of :: "(WorkflowExecution \<times> WorkflowRunner) option \<Rightarrow> RunStatus option" where
  "status_of r = map_option (\<lambda>(execution, this). we_status execution) r"

definition invocations_of :: "(WorkflowExecution \<times> WorkflowRunner) option \<Rightarrow> string list option" where
  "invocations_of r = map_option (\<lambda>(execution, this). invoked this) r"


text \<open>The synthetic result \<^verbatim>\<open>run\<close> builds for the planning error at a given index.\<close>

definition synthetic_plan_error :: "nat \<Rightarrow> string \<Rightarrow> RunResult" where
  "synthetic_plan_error index error =
     \<lparr>rr_nodeId = ''error-'' @ show_nat index, rr_status = Error, rr_output = None,
      rr_error = Some \<lparr>err_message = error, err_code = Some ''PLAN_ERROR''\<rparr>\<rparr>"

section \<open>Cycles as a property of the edge list\<close>

text \<open>The edges of a workflow as a relation on ids, and the graphs on which the depth-first
  traversal finds a cycle: those with a cycle that a listed node reaches. \<open>adj_rel\<close> reads an
  adjacency map as a relation; \<open>dfs_inv\<close> is the invariant of the traversal on the pair
  (visited, recursionStack): the finished nodes (visited and off the stack) are closed under
  the edges and lie on no cycle.\<close>

definition edge_rel :: "WorkflowEdge list \<Rightarrow> (string \<times> string) set" where
  "edge_rel edges = (\<lambda>e. (source e, target e)) ` set edges"

definition reachable_cycle :: "WorkflowNode list \<Rightarrow> WorkflowEdge list \<Rightarrow> bool" where
  "reachable_cycle nodes edges \<longleftrightarrow>
     (\<exists>m \<in> node_id ` set nodes. \<exists>c. (m, c) \<in> (edge_rel edges)\<^sup>* \<and> (c, c) \<in> (edge_rel edges)\<^sup>+)"

definition adj_rel :: "(string \<times> string list) list \<Rightarrow> (string \<times> string) set" where
  "adj_rel adj = {(x, y). y \<in> set (get_or_empty adj x)}"

definition dfs_inv :: "(string \<times> string list) list \<Rightarrow> string set \<times> string set \<Rightarrow> bool" where
  "dfs_inv adj s \<longleftrightarrow>
     snd s \<subseteq> fst s \<and>
     (\<forall>x \<in> fst s - snd s. \<forall>y. (x, y) \<in> adj_rel adj \<longrightarrow> y \<in> fst s - snd s) \<and>
     (\<forall>x \<in> fst s - snd s. (x, x) \<notin> (adj_rel adj)\<^sup>+)"

text \<open>
  Vocabulary for the queue-based sort. \<open>pending\<close> counts the edges into an id whose source
  has not been dequeued yet, \<open>successors\<close> is the adjacency list of an id, \<open>roots\<close> are the
  listed ids with no incoming edge, in node-array order, and \<open>known_ids\<close> are the ids the
  in-degree map has an entry for. \<open>kahn_inv\<close> is the invariant of the main loop of
  \<^verbatim>\<open>topologicalSort\<close>, stated for the list \<open>D\<close> of ids dequeued so far, the queue and the
  in-degree map; \<open>branch_order\<close> adds that two ids whose only incoming edges leave the same
  id enter the queue in the order of those edges. \<open>stray_origin\<close> says that some listed node is
  reached, along the edges, from an id that is neither a node nor the target of an edge.
\<close>

definition pending :: "WorkflowEdge list \<Rightarrow> string set \<Rightarrow> string \<Rightarrow> nat" where
  "pending edges done t = length (filter (\<lambda>e. target e = t \<and> source e \<notin> done) edges)"

definition known_ids :: "WorkflowNode list \<Rightarrow> WorkflowEdge list \<Rightarrow> string set" where
  "known_ids nodes edges = node_id ` set nodes \<union> target ` set edges"

definition successors :: "WorkflowEdge list \<Rightarrow> string \<Rightarrow> string list" where
  "successors edges u = map target (filter (\<lambda>e. source e = u) edges)"

definition roots :: "WorkflowNode list \<Rightarrow> WorkflowEdge list \<Rightarrow> string list" where
  "roots nodes edges = filter (\<lambda>i. i \<notin> target ` set edges) (map node_id nodes)"

definition kahn_inv ::
  "WorkflowNode list \<Rightarrow> WorkflowEdge list \<Rightarrow> string list \<Rightarrow> string list \<Rightarrow> (string \<times> int) list \<Rightarrow> bool" where
  "kahn_inv nodes edges D q deg \<longleftrightarrow>
     distinct (D @ q) \<and>
     (\<forall>t. get_or_zero deg t = int (pending edges (set D) t)) \<and>
     (\<forall>t. t \<in> set (D @ q) \<longleftrightarrow> t \<in> known_ids nodes edges \<and> pending edges (set D) t = 0) \<and>
     (\<forall>e \<in> set edges. target e \<in> set D \<longrightarrow> (\<exists>D1 D2. D = D1 @ target e # D2 \<and> source e \<in> set D1)) \<and>
     (\<exists>ys. D @ q = roots nodes edges @ ys)"

definition in_degree :: "WorkflowEdge list \<Rightarrow> string \<Rightarrow> nat" where
  "in_degree edges t = length (filter (\<lambda>e. target e = t) edges)"

definition branch_order :: "WorkflowEdge list \<Rightarrow> string list \<Rightarrow> bool" where
  "branch_order edges L \<longleftrightarrow>
     (\<forall>es1 e1 es2 e2 es3.
        edges = es1 @ e1 # es2 @ e2 # es3 \<and> source e1 = source e2 \<and>
        in_degree edges (target e1) = 1 \<and> in_degree edges (target e2) = 1 \<and> target e2 \<in> set L
        \<longrightarrow> (\<exists>L1 L2. L = L1 @ target e1 # L2 \<and> target e2 \<in> set L2))"

definition stray_origin :: "WorkflowNode list \<Rightarrow> WorkflowEdge list \<Rightarrow> bool" where
  "stray_origin nodes edges \<longleftrightarrow>
     (\<exists>b y. b \<in> node_id ` set nodes \<and> (y, b) \<in> (edge_rel edges)\<^sup>* \<and>
            y \<notin> node_id ` set nodes \<and> y \<notin> target ` set edges)"


section \<open>Input resolution, edge by edge\<close>











section \<open>The cycle check always returns\<close>

text \<open>The neighbours of a node in the adjacency list are the targets of its outgoing edges,
  in edge-array order.\<close>

lemma get_or_empty_update:
  "get_or_empty (AList.update k v m) n = (if n = k then v else get_or_empty m n)"
  by (simp add: get_or_empty_def update_conv')

lemma get_or_empty_nodes:
  "get_or_empty (fold (\<lambda>node adjacency. AList.update (node_id node) [] adjacency) nodes m) n =
     (if n \<in> set (map node_id nodes) then [] else get_or_empty m n)"
  by (induction nodes arbitrary: m) (auto simp: get_or_empty_update)

lemma get_or_empty_edges:
  "get_or_empty (fold (\<lambda>edge adjacency.
       AList.update (source edge) (get_or_empty adjacency (source edge) @ [target edge]) adjacency) edges m) n =
     get_or_empty m n @ map target (filter (\<lambda>e. source e = n) edges)"
  by (induction edges arbitrary: m) (auto simp: get_or_empty_update)

lemma neighbours_buildAdjacencyList:
  "get_or_empty (buildAdjacencyList nodes edges) n = map target (filter (\<lambda>e. source e = n) edges)"
proof -
  have "get_or_empty [] n = ([] :: string list)"
    by (simp add: get_or_empty_def)
  then show ?thesis
    by (simp add: buildAdjacencyList_def get_or_empty_edges get_or_empty_nodes)
qed

lemma hasCycle_total:
  assumes U: "finite U"
  shows "\<forall>n. set (get_or_empty adj n) \<subseteq> U \<Longrightarrow> n \<in> U \<Longrightarrow> snd s \<subseteq> U
           \<Longrightarrow> card (U - snd s) < k \<Longrightarrow>
           (\<exists>vis'. hasCycleUtil k adj n s = Some (False, vis', snd s)) \<or>
           (\<exists>s'. hasCycleUtil k adj n s = Some (True, s'))"
    and "\<forall>n. set (get_or_empty adj n) \<subseteq> U \<Longrightarrow> set ns \<subseteq> U \<Longrightarrow> snd s \<subseteq> U
           \<Longrightarrow> card (U - snd s) < k \<Longrightarrow>
           (\<exists>vis'. hasCycleLoop k adj ns s = Some (False, vis', snd s)) \<or>
           (\<exists>s'. hasCycleLoop k adj ns s = Some (True, s'))"
proof (induction k adj n s and k adj ns s rule: hasCycleUtil_hasCycleLoop.induct)
  case (1 adjacency nodeId s)
  then show ?case by simp
next
  case (2 k adjacency nodeId visited recursionStack)
  show ?case
  proof (cases "nodeId \<in> recursionStack \<or> nodeId \<in> visited")
    case True
    then show ?thesis by auto
  next
    case False
    have "card (U - insert nodeId recursionStack) < k"
    proof -
      have "nodeId \<in> U - recursionStack" using "2.prems" False by simp
      then have "card (U - recursionStack - {nodeId}) < card (U - recursionStack)"
        using U by (intro card_Diff1_less) auto
      moreover have "U - insert nodeId recursionStack = U - recursionStack - {nodeId}" by auto
      ultimately show ?thesis using "2.prems" by simp
    qed
    with "2.IH" "2.prems" False
    have "(\<exists>vis'. hasCycleLoop k adjacency (get_or_empty adjacency nodeId)
                     (insert nodeId visited, insert nodeId recursionStack)
                   = Some (False, vis', insert nodeId recursionStack)) \<or>
          (\<exists>s'. hasCycleLoop k adjacency (get_or_empty adjacency nodeId)
                     (insert nodeId visited, insert nodeId recursionStack) = Some (True, s'))"
      by simp
    with False show ?thesis by auto
  qed
next
  case (3 k adjacency s)
  then show ?case by (cases s) simp
next
  case (4 k adjacency neighbor rest s)
  from "4.IH"(1) "4.prems" have "(\<exists>vis'. hasCycleUtil k adjacency neighbor s = Some (False, vis', snd s)) \<or>
           (\<exists>s'. hasCycleUtil k adjacency neighbor s = Some (True, s'))"
    by simp
  then show ?case
  proof
    assume "\<exists>vis'. hasCycleUtil k adjacency neighbor s = Some (False, vis', snd s)"
    then obtain vis' where h: "hasCycleUtil k adjacency neighbor s = Some (False, vis', snd s)" ..
    from "4.IH"(2) [OF h refl] "4.prems"
    show ?thesis by (simp add: h)
  next
    assume "\<exists>s'. hasCycleUtil k adjacency neighbor s = Some (True, s')"
    then show ?thesis by auto
  qed
qed


lemma card_ids_bound:
  "card (set (map node_id nodes) \<union> set (map target edges)) < dfs_depth nodes edges"
proof -
  have "card (set (map node_id nodes) \<union> set (map target edges))
          \<le> card (set (map node_id nodes)) + card (set (map target edges))"
    by (rule card_Un_le)
  also have "\<dots> \<le> length (map node_id nodes) + length (map target edges)"
    by (intro add_mono card_length)
  finally show ?thesis by (simp add: dfs_depth_def)
qed

lemma detectCycle_total: "\<exists>b. detectCycle nodes edges = Some b"
proof -
  let ?U = "set (map node_id nodes) \<union> set (map target edges)"
  let ?adj = "buildAdjacencyList nodes edges"
  have "(\<exists>vis'. hasCycleLoop (dfs_depth nodes edges) ?adj (map node_id nodes) ({}, {})
                  = Some (False, vis', snd ({}, {}))) \<or>
        (\<exists>s'. hasCycleLoop (dfs_depth nodes edges) ?adj (map node_id nodes) ({}, {}) = Some (True, s'))"
    using hasCycle_total(2) [of ?U ?adj "map node_id nodes" "({}, {})" "dfs_depth nodes edges"]
      card_ids_bound [of nodes edges]
    by (auto simp: neighbours_buildAdjacencyList)
  then show ?thesis
    by (auto simp: detectCycle_def)
qed

lemma dfs_simulates:
  "map_option (\<lambda>(r, v, s, p). (r \<noteq> None, v, s)) (dfs k adj n s)
     = hasCycleUtil k adj n (fst s, fst (snd s))"
  "map_option (\<lambda>(r, v, s, p). (r \<noteq> None, v, s)) (dfs_loop k adj ns s)
     = hasCycleLoop k adj ns (fst s, fst (snd s))"
proof (induction k adj n s and k adj ns s rule: dfs_dfs_loop.induct)
  case (1 adjacency nodeId s)
  then show ?case by simp
next
  case (2 k adjacency nodeId visited recursionStack path)
  show ?case
  proof (cases "nodeId \<in> recursionStack \<or> nodeId \<in> visited")
    case True
    then show ?thesis by auto
  next
    case False
    with "2.IH" show ?thesis
      by (cases "dfs_loop k adjacency (get_or_empty adjacency nodeId)
                   (insert nodeId visited, insert nodeId recursionStack, path @ [nodeId])")
        (auto split: option.splits)
  qed
next
  case (3 k adjacency s)
  then show ?case by (cases s) simp
next
  case (4 k adjacency neighbor rest s)
  show ?case
  proof (cases "dfs k adjacency neighbor s")
    case None
    with "4.IH"(1) show ?thesis by (cases s) auto
  next
    case (Some r)
    then show ?thesis
      using "4.IH"(1) [symmetric] "4.IH"(2) [OF Some]
      by (cases r; cases s) (auto split: option.splits)
  qed
qed

section \<open>Planning always returns\<close>

lemma findCycle_total: "\<exists>c. findCycle nodes edges = Some c"
proof -
  let ?r = "dfs_loop (dfs_depth nodes edges) (buildAdjacencyList nodes edges) (map node_id nodes) ({}, {}, [])"
  obtain b where "detectCycle nodes edges = Some b"
    using detectCycle_total by blast
  then have "hasCycleLoop (dfs_depth nodes edges) (buildAdjacencyList nodes edges)
               (map node_id nodes) ({}, {}) \<noteq> None"
    by (auto simp: detectCycle_def split: option.splits)
  with dfs_simulates(2) [of "dfs_depth nodes edges" "buildAdjacencyList nodes edges"
        "map node_id nodes" "({}, {}, [])"]
  have "?r \<noteq> None" by auto
  then show ?thesis
    by (auto simp: findCycle_def split: option.splits)
qed

lemma checkForCycles_eq:
  "\<exists>c. checkForCycles nodes edges =
     (case detectCycle nodes edges of None \<Rightarrow> None | Some b \<Rightarrow> Some (b, if b then Some c else None))"
  using findCycle_total [of nodes edges] detectCycle_total [of nodes edges]
  by (auto simp: checkForCycles_def split: option.splits bool.splits)

lemma buildExecutionPlan_total: "\<exists>plan. buildExecutionPlan w = Some plan"
  using checkForCycles_eq [of "wf_nodes w" "wf_edges w"] detectCycle_total [of "wf_nodes w" "wf_edges w"]
  by (auto simp: buildExecutionPlan_def Let_def split: option.splits)

lemma buildExecutionPlan_cyclic:
  assumes "detectCycle (wf_nodes w) (wf_edges w) = Some True"
  shows "\<exists>c. buildExecutionPlan w =
           Some \<lparr>plan_nodes = [], plan_valid = False,
                 plan_errors = [''Workflow contains a cycle: '' @ c]\<rparr>"
  using checkForCycles_eq [of "wf_nodes w" "wf_edges w"] assms
  by (auto simp: buildExecutionPlan_def Let_def)

lemma buildExecutionPlan_acyclic:
  assumes "detectCycle (wf_nodes w) (wf_edges w) = Some False"
  shows "buildExecutionPlan w =
    (case topologicalSort (wf_nodes w) (wf_edges w) of
       None \<Rightarrow> Some \<lparr>plan_nodes = [], plan_valid = False,
                     plan_errors = [''Failed to topologically sort nodes (possible cycle)'']\<rparr>
     | Some sortedNodes \<Rightarrow>
         Some \<lparr>plan_nodes = map (\<lambda>node.
                   \<lparr>ctx_nodeId = node_id node, ctx_node = node, ctx_inputs = Map.empty,
                    dependencies = get_or_empty (buildDependencyMap (wf_edges w)) (node_id node)\<rparr>)
                   sortedNodes,
               plan_valid = True, plan_errors = []\<rparr>)"
  using checkForCycles_eq [of "wf_nodes w" "wf_edges w"] assms
  by (auto simp: buildExecutionPlan_def Let_def split: option.splits)

text \<open>The plan has exactly one error string when it is invalid, and none when it is valid.\<close>

lemma buildExecutionPlan_errors:
  assumes "buildExecutionPlan w = Some plan"
  shows "length (plan_errors plan) = (if plan_valid plan then 0 else 1)"
    and "\<not> plan_valid plan \<Longrightarrow> plan_nodes plan = []"
proof -
  obtain b where b: "detectCycle (wf_nodes w) (wf_edges w) = Some b"
    using detectCycle_total by blast
  have "length (plan_errors plan) = (if plan_valid plan then 0 else 1)
          \<and> (\<not> plan_valid plan \<longrightarrow> plan_nodes plan = [])"
  proof (cases b)
    case True
    with b buildExecutionPlan_cyclic [of w] assms show ?thesis by auto
  next
    case False
    with b buildExecutionPlan_acyclic [of w] assms show ?thesis
      by (cases "topologicalSort (wf_nodes w) (wf_edges w)") auto
  qed
  then show "length (plan_errors plan) = (if plan_valid plan then 0 else 1)"
    and "\<not> plan_valid plan \<Longrightarrow> plan_nodes plan = []"
    by simp_all
qed

section \<open>Validation verdicts\<close>

lemma distinct_count_edges:
  "distinct (map fst m) \<Longrightarrow> distinct (map fst (fold (\<lambda>edge. count_edge (edge_key edge)) edges m))"
proof (induction edges arbitrary: m)
  case Nil
  then show ?case by simp
next
  case (Cons e edges)
  have "distinct (map fst (count_edge (edge_key e) m))"
    using Cons.prems by (simp add: count_edge_def distinct_update)
  then show ?case by (simp add: Cons.IH)
qed

lemma map_of_count_edge:
  "map_of (count_edge k m) key =
     (if key = k then Some ((case map_of m k of None \<Rightarrow> 0 | Some c \<Rightarrow> c) + 1) else map_of m key)"
  by (simp add: count_edge_def update_conv')

lemma map_of_count_edges:
  "map_of (fold (\<lambda>edge. count_edge (edge_key edge)) edges m) key =
     (if filter (\<lambda>e. edge_key e = key) edges = [] then map_of m key
      else Some ((case map_of m key of None \<Rightarrow> 0 | Some c \<Rightarrow> c)
                  + length (filter (\<lambda>e. edge_key e = key) edges)))"
proof (induction edges arbitrary: m)
  case Nil
  then show ?case by simp
next
  case (Cons e edges)
  show ?case
    by (simp add: Cons.IH map_of_count_edge)
qed

lemma two_matches:
  assumes "i < j" "j < length xs" "P (xs ! i)" "P (xs ! j)"
  shows "2 \<le> length (filter P xs)"
proof -
  have xs: "xs = take j xs @ xs ! j # drop (Suc j) xs"
    using assms(2) by (simp add: id_take_nth_drop)
  have "xs ! i \<in> set (take j xs)"
    using assms(1,2) by (auto simp: in_set_conv_nth intro!: exI [of _ i])
  with assms(3) have "filter P (take j xs) \<noteq> []"
    by (auto simp: filter_empty_conv)
  then have "1 \<le> length (filter P (take j xs))"
    by (cases "filter P (take j xs)") simp_all
  moreover have "length (filter P xs) =
      length (filter P (take j xs)) + length (filter P (xs ! j # drop (Suc j) xs))"
    by (subst xs) simp
  ultimately show ?thesis using assms(4) by simp
qed

lemma duplicate_counted:
  assumes "i < j" "j < length edges" "edge_key (edges ! i) = key" "edge_key (edges ! j) = key"
  shows "\<exists>c. 1 < c \<and> (key, c) \<in> set (fold (\<lambda>edge. count_edge (edge_key edge)) edges [])"
proof -
  let ?f = "filter (\<lambda>e. edge_key e = key) edges"
  have two: "2 \<le> length ?f"
    using assms by (intro two_matches)
  then have "?f \<noteq> []" by auto
  then have "map_of (fold (\<lambda>edge. count_edge (edge_key edge)) edges []) key = Some (length ?f)"
    by (simp add: map_of_count_edges)
  then have "(key, length ?f) \<in> set (fold (\<lambda>edge. count_edge (edge_key edge)) edges [])"
    by (rule map_of_SomeD)
  with two show ?thesis by (intro exI [of _ "length ?f"]) auto
qed


lemma validate_errors_mem:
  assumes "validateWorkflowDAG nodes edges = Some r" "e \<in> set edges"
  shows "source e \<notin> node_id ` set nodes \<Longrightarrow>
           ''Edge '' @ edge_id e @ '' references non-existent source node: '' @ source e \<in> set (errors r)"
    and "target e \<notin> node_id ` set nodes \<Longrightarrow>
           ''Edge '' @ edge_id e @ '' references non-existent target node: '' @ target e \<in> set (errors r)"
  using assms by (auto simp: validateWorkflowDAG_def Let_def split: option.splits)

lemma validate_valid_iff:
  assumes "validateWorkflowDAG nodes edges = Some r"
  shows "valid r \<longleftrightarrow> errors r = []"
    and "valid r \<longleftrightarrow> detectCycle nodes edges = Some False \<and>
           (\<forall>e \<in> set edges. source e \<in> node_id ` set nodes \<and> target e \<in> node_id ` set nodes)"
proof -
  obtain b where b: "detectCycle nodes edges = Some b"
    using detectCycle_total by blast
  let ?edge_errors = "\<lambda>edge.
        (if source edge \<notin> set (map node_id nodes)
         then [''Edge '' @ edge_id edge @ '' references non-existent source node: '' @ source edge]
         else []) @
        (if target edge \<notin> set (map node_id nodes)
         then [''Edge '' @ edge_id edge @ '' references non-existent target node: '' @ target edge]
         else [])"
  have e: "errors r = (if b then [''Workflow contains a cycle - workflows must be acyclic (DAG)''] else [])
                       @ concat (map ?edge_errors edges)"
    and v: "valid r = (errors r = [])"
    using assms b by (auto simp: validateWorkflowDAG_def Let_def)
  show "valid r \<longleftrightarrow> errors r = []" by (rule v)
  have "concat (map ?edge_errors edges) = [] \<longleftrightarrow>
          (\<forall>e \<in> set edges. source e \<in> node_id ` set nodes \<and> target e \<in> node_id ` set nodes)"
    by (auto split: if_splits)
  then show "valid r \<longleftrightarrow> detectCycle nodes edges = Some False \<and>
           (\<forall>e \<in> set edges. source e \<in> node_id ` set nodes \<and> target e \<in> node_id ` set nodes)"
    unfolding v e b by (cases b) simp_all
qed

lemma validate_isolated:
  assumes "validateWorkflowDAG nodes edges = Some r"
  shows "n \<in> set nodes \<Longrightarrow> node_id n \<notin> source ` set edges \<union> target ` set edges
           \<Longrightarrow> 1 < length nodes
           \<Longrightarrow> ''Node '' @ node_id n @ '' ('' @ node_label n @ '') is not connected to any other nodes''
                 \<in> set (warnings r)"
    and "length nodes \<le> 1 \<Longrightarrow>
           ''Node '' @ i @ '' ('' @ l @ '') is not connected to any other nodes'' \<notin> set (warnings r)"
  using assms by (auto simp: validateWorkflowDAG_def Let_def split: option.splits)

lemma validate_duplicates:
  assumes "validateWorkflowDAG nodes edges = Some r"
    and "i < j" "j < length edges"
    and "source (edges ! i) = source (edges ! j)" "target (edges ! i) = target (edges ! j)"
  shows "''Multiple edges exist between the same nodes: '' @ source (edges ! i) @ ''->'' @ target (edges ! i)
           \<in> set (warnings r)"
proof -
  obtain c where c: "1 < c"
      "(edge_key (edges ! i), c) \<in> set (fold (\<lambda>edge. count_edge (edge_key edge)) edges [])"
    using duplicate_counted [of i j edges "edge_key (edges ! i)"] assms(2-5)
    by (auto simp: edge_key_def)
  from assms(1) have "warnings r =
      concat (map (\<lambda>node.
                   if node_id node \<notin> set (map source edges) \<union> set (map target edges) \<and> length nodes > 1
                   then [''Node '' @ node_id node @ '' ('' @ node_label node
                           @ '') is not connected to any other nodes'']
                   else []) nodes) @
      concat (map (\<lambda>(key, count).
                   if count > 1 then [''Multiple edges exist between the same nodes: '' @ key] else [])
                   (fold (\<lambda>edge. count_edge (edge_key edge)) edges []))"
    by (auto simp: validateWorkflowDAG_def Let_def split: option.splits)
  with c show ?thesis
    by (auto simp: edge_key_def intro!: bexI [of _ "(edge_key (edges ! i), c)"])
qed

text \<open>
  C8. For every node list and edge list \<^verbatim>\<open>validateWorkflowDAG\<close> returns a result, which is
  valid exactly when its error list is empty. An edge whose source or target is not the
  id of a listed node produces an error naming it. A node that is the endpoint of no edge
  produces a warning when more than one node is listed, and no such warning exists when
  at most one node is listed; two edges at different positions with the same source and
  the same target produce a duplicate warning. Warnings never affect validity: the result
  is valid exactly when no cycle was detected and every edge endpoint is a listed node.
\<close>

theorem validateWorkflowDAG_verdict:
  "\<exists>r. validateWorkflowDAG nodes edges = Some r
     \<and> (valid r \<longleftrightarrow> errors r = [])
     \<and> (valid r \<longleftrightarrow> detectCycle nodes edges = Some False \<and>
           (\<forall>e \<in> set edges. source e \<in> node_id ` set nodes \<and> target e \<in> node_id ` set nodes))
     \<and> (\<forall>e \<in> set edges. source e \<notin> node_id ` set nodes \<longrightarrow>
           ''Edge '' @ edge_id e @ '' references non-existent source node: '' @ source e \<in> set (errors r))
     \<and> (\<forall>e \<in> set edges. target e \<notin> node_id ` set nodes \<longrightarrow>
           ''Edge '' @ edge_id e @ '' references non-existent target node: '' @ target e \<in> set (errors r))
     \<and> (\<forall>n \<in> set nodes. node_id n \<notin> source ` set edges \<union> target ` set edges \<longrightarrow> 1 < length nodes \<longrightarrow>
           ''Node '' @ node_id n @ '' ('' @ node_label n @ '') is not connected to any other nodes''
             \<in> set (warnings r))
     \<and> (length nodes \<le> 1 \<longrightarrow>
           (\<forall>i l. ''Node '' @ i @ '' ('' @ l @ '') is not connected to any other nodes'' \<notin> set (warnings r)))
     \<and> (\<forall>i j. i < j \<longrightarrow> j < length edges \<longrightarrow> source (edges ! i) = source (edges ! j) \<longrightarrow>
           target (edges ! i) = target (edges ! j) \<longrightarrow>
           ''Multiple edges exist between the same nodes: '' @ source (edges ! i) @ ''->'' @ target (edges ! i)
             \<in> set (warnings r))"
proof -
  obtain b where "detectCycle nodes edges = Some b"
    using detectCycle_total by blast
  then obtain r where r: "validateWorkflowDAG nodes edges = Some r"
    by (simp add: validateWorkflowDAG_def Let_def)
  show ?thesis
    using validate_valid_iff [OF r] validate_errors_mem [OF r] validate_isolated [OF r]
      validate_duplicates [OF r]
    by (intro exI [of _ r] conjI r) blast+
qed

theorem validateWorkflowDAG_verdict_witness:
  "\<exists>r. validateWorkflowDAG ex_nodes3 ex_edges_dup = Some r
     \<and> \<not> valid r
     \<and> ''Edge A->X references non-existent target node: X'' \<in> set (errors r)
     \<and> ''Node C (Node C) is not connected to any other nodes'' \<in> set (warnings r)
     \<and> ''Multiple edges exist between the same nodes: A->B'' \<in> set (warnings r)"
proof -
  obtain r where r: "validateWorkflowDAG ex_nodes3 ex_edges_dup = Some r"
    and v: "valid r \<longleftrightarrow> detectCycle ex_nodes3 ex_edges_dup = Some False \<and>
           (\<forall>e \<in> set ex_edges_dup. source e \<in> node_id ` set ex_nodes3 \<and> target e \<in> node_id ` set ex_nodes3)"
    and t: "\<forall>e \<in> set ex_edges_dup. target e \<notin> node_id ` set ex_nodes3 \<longrightarrow>
           ''Edge '' @ edge_id e @ '' references non-existent target node: '' @ target e \<in> set (errors r)"
    and i: "\<forall>n \<in> set ex_nodes3. node_id n \<notin> source ` set ex_edges_dup \<union> target ` set ex_edges_dup \<longrightarrow>
           1 < length ex_nodes3 \<longrightarrow>
           ''Node '' @ node_id n @ '' ('' @ node_label n @ '') is not connected to any other nodes''
             \<in> set (warnings r)"
    and d: "\<forall>i j. i < j \<longrightarrow> j < length ex_edges_dup \<longrightarrow>
           source (ex_edges_dup ! i) = source (ex_edges_dup ! j) \<longrightarrow>
           target (ex_edges_dup ! i) = target (ex_edges_dup ! j) \<longrightarrow>
           ''Multiple edges exist between the same nodes: '' @ source (ex_edges_dup ! i) @ ''->''
              @ target (ex_edges_dup ! i) \<in> set (warnings r)"
    using validateWorkflowDAG_verdict [of ex_nodes3 ex_edges_dup] by blast
  have "\<not> valid r"
    using v by (simp add: ex_nodes3_def ex_edges_dup_def ex_node_def ex_edge_def)
  moreover have "''Edge A->X references non-existent target node: X'' \<in> set (errors r)"
    using t [rule_format, of "ex_edge ''A'' ''X'' None"]
    by (simp add: ex_nodes3_def ex_edges_dup_def ex_node_def ex_edge_def)
  moreover have "''Node C (Node C) is not connected to any other nodes'' \<in> set (warnings r)"
    using i [rule_format, of "ex_node ''C'' ''text''"]
    by (simp add: ex_nodes3_def ex_edges_dup_def ex_node_def ex_edge_def)
  moreover have "''Multiple edges exist between the same nodes: A->B'' \<in> set (warnings r)"
    using d [rule_format, of 0 1]
    by (simp add: ex_nodes3_def ex_edges_dup_def ex_node_def ex_edge_def)
  ultimately show ?thesis using r by blast
qed

section \<open>The runner: what each step leaves unchanged\<close>

lemma emitEvent_frame:
  "workflow (snd (emitEvent ev this)) = workflow this"
  "config (snd (emitEvent ev this)) = config this"
  "executionId (snd (emitEvent ev this)) = executionId this"
  "completedNodes (snd (emitEvent ev this)) = completedNodes this"
  "results (snd (emitEvent ev this)) = results this"
  "logs (snd (emitEvent ev this)) = logs this"
  "invoked (snd (emitEvent ev this)) = invoked this"
  "attempted (snd (emitEvent ev this)) = attempted this"
  by (simp_all add: emitEvent_def split: option.splits)

lemma emitEvent_delivered:
  "delivered (snd (emitEvent ev this)) =
     delivered this @ (if onEvent (config this) = None then [] else [ev])"
  by (simp add: emitEvent_def split: option.splits)

lemma emitEvent_throws:
  "fst (emitEvent ev this) = Inl e \<longleftrightarrow> (\<exists>l. onEvent (config this) = Some l \<and> l ev = Some e)"
  by (auto simp: emitEvent_def split: option.splits)

lemma emitEvent_returns:
  "fst (emitEvent ev this) = Inr u \<longleftrightarrow> (\<forall>l. onEvent (config this) = Some l \<longrightarrow> l ev = None)"
  by (auto simp: emitEvent_def split: option.splits)

lemma addLog_frame:
  "workflow (addLog n m this) = workflow this"
  "config (addLog n m this) = config this"
  "executionId (addLog n m this) = executionId this"
  "completedNodes (addLog n m this) = completedNodes this"
  "results (addLog n m this) = results this"
  "delivered (addLog n m this) = delivered this"
  "invoked (addLog n m this) = invoked this"
  "attempted (addLog n m this) = attempted this"
  by (simp_all add: addLog_def Let_def)

lemma executeNode_try_frame:
  "workflow (snd (executeNode_try registry nodeId node ctx this)) = workflow this"
  "config (snd (executeNode_try registry nodeId node ctx this)) = config this"
  "executionId (snd (executeNode_try registry nodeId node ctx this)) = executionId this"
  "attempted (snd (executeNode_try registry nodeId node ctx this)) = attempted this"
  by (auto simp: executeNode_try_def emitEvent_def Let_def
           split: option.splits sum.splits prod.splits)


lemma executeNode_frame:
  "workflow (snd (executeNode registry nodeId ctx this)) = workflow this"
  "config (snd (executeNode registry nodeId ctx this)) = config this"
  "executionId (snd (executeNode registry nodeId ctx this)) = executionId this"
  by (auto simp: executeNode_def Let_def executeNode_try_frame emitEvent_frame addLog_frame
           split: option.splits sum.splits prod.splits
           dest!: arg_cong [where f = snd])


lemma executeNode_attempted:
  "attempted (snd (executeNode registry nodeId ctx this)) =
     attempted this @ (if find (\<lambda>n. node_id n = nodeId) (wf_nodes (workflow this)) = None then []
                       else [nodeId])"
  by (auto simp: executeNode_def Let_def executeNode_try_frame emitEvent_frame addLog_frame
           split: option.splits sum.splits prod.splits
           dest!: arg_cong [where f = snd])

text \<open>The only way out of \<^verbatim>\<open>executeNode\<close> with an exception is the listener throwing when it
  is handed the \<^verbatim>\<open>failed\<close> event.\<close>

lemma executeNode_returns:
  assumes "\<And>l ev. onEvent (config this) = Some l \<Longrightarrow> ev_status ev = EvFailed \<Longrightarrow> l ev = None"
  shows "fst (executeNode registry nodeId ctx this) = Inr ()"
proof (cases "find (\<lambda>n. node_id n = nodeId) (wf_nodes (workflow this))")
  case None
  then show ?thesis by (simp add: executeNode_def)
next
  case (Some node)
  obtain r this1 where t: "executeNode_try registry nodeId node ctx
      (this\<lparr>attempted := attempted this @ [nodeId]\<rparr>) = (r, this1)"
    by (cases "executeNode_try registry nodeId node ctx (this\<lparr>attempted := attempted this @ [nodeId]\<rparr>)")
  have c: "config this1 = config this"
    using executeNode_try_frame(2) [of registry nodeId node ctx "this\<lparr>attempted := attempted this @ [nodeId]\<rparr>"]
    by (simp add: t)
  show ?thesis
  proof (cases r)
    case (Inr u)
    with Some t show ?thesis by (simp add: executeNode_def)
  next
    case (Inl error)
    define ev where "ev = \<lparr>ev_nodeId = nodeId, ev_status = EvFailed, ev_output = None,
        ev_error = Some \<lparr>err_message = (case error of ErrorObject m c \<Rightarrow> m | NotAnError \<Rightarrow> ''Unknown error''),
                         err_code = Some (case error of ErrorObject m (Some c) \<Rightarrow> c | _ \<Rightarrow> ''EXECUTION_ERROR'')\<rparr>,
        ev_logs = Some (get_or_empty (logs this1) nodeId)\<rparr>"
    define this2 where "this2 = this1\<lparr>results := AList.update nodeId
         \<lparr>rr_nodeId = nodeId, rr_status = Error, rr_output = None,
          rr_error = Some \<lparr>err_message = (case error of ErrorObject m c \<Rightarrow> m | NotAnError \<Rightarrow> ''Unknown error''),
                           err_code = Some (case error of ErrorObject m (Some c) \<Rightarrow> c | _ \<Rightarrow> ''EXECUTION_ERROR'')\<rparr>\<rparr>
         (results this1)\<rparr>"
    have "fst (emitEvent ev this2) = Inr ()"
      using assms c by (simp add: emitEvent_returns this2_def ev_def)
    then obtain this3 where "emitEvent ev this2 = (Inr (), this3)"
      by (cases "emitEvent ev this2") auto
    with Some t Inl show ?thesis
      by (simp add: executeNode_def Let_def ev_def this2_def)
  qed
qed

lemma execute_all_frame':
  "workflow (snd (execute_all registry ctxs this)) = workflow this \<and>
   config (snd (execute_all registry ctxs this)) = config this \<and>
   executionId (snd (execute_all registry ctxs this)) = executionId this"
proof (induction ctxs arbitrary: this)
  case Nil
  show ?case by simp
next
  case (Cons ctx ctxs)
  obtain r this1 where e: "executeNode registry (ctx_nodeId ctx) ctx this = (r, this1)"
    by (cases "executeNode registry (ctx_nodeId ctx) ctx this")
  have f: "workflow this1 = workflow this" "config this1 = config this" "executionId this1 = executionId this"
    using executeNode_frame [of registry "ctx_nodeId ctx" ctx this] by (simp_all add: e)
  show ?case
  proof (cases r)
    case (Inl a)
    then show ?thesis using f by (simp add: e)
  next
    case (Inr u)
    then show ?thesis using f Cons.IH [of this1] by (simp add: e)
  qed
qed

lemmas execute_all_frame =
  execute_all_frame' [THEN conjunct1]
  execute_all_frame' [THEN conjunct2, THEN conjunct1]
  execute_all_frame' [THEN conjunct2, THEN conjunct2]

lemma execute_all_returns:
  assumes "\<And>l ev. onEvent (config this) = Some l \<Longrightarrow> ev_status ev = EvFailed \<Longrightarrow> l ev = None"
    and "\<And>ctx. ctx \<in> set ctxs \<Longrightarrow> find (\<lambda>n. node_id n = ctx_nodeId ctx) (wf_nodes (workflow this)) \<noteq> None"
  shows "fst (execute_all registry ctxs this) = Inr ()
         \<and> attempted (snd (execute_all registry ctxs this)) = attempted this @ map ctx_nodeId ctxs"
  using assms
proof (induction ctxs arbitrary: this)
  case Nil
  then show ?case by simp
next
  case (Cons ctx ctxs)
  obtain r this1 where e: "executeNode registry (ctx_nodeId ctx) ctx this = (r, this1)"
    by (cases "executeNode registry (ctx_nodeId ctx) ctx this")
  have r: "r = Inr ()"
    using executeNode_returns [of this registry "ctx_nodeId ctx" ctx] Cons.prems(1) by (simp add: e)
  have f: "workflow this1 = workflow this" "config this1 = config this"
    using executeNode_frame [of registry "ctx_nodeId ctx" ctx this] by (simp_all add: e)
  have a: "attempted this1 = attempted this @ [ctx_nodeId ctx]"
    using executeNode_attempted [of registry "ctx_nodeId ctx" ctx this] Cons.prems(2) [of ctx]
    by (simp add: e)
  have "fst (execute_all registry ctxs this1) = Inr ()
         \<and> attempted (snd (execute_all registry ctxs this1)) = attempted this1 @ map ctx_nodeId ctxs"
    using Cons.prems by (intro Cons.IH) (simp_all add: f)
  then show ?case by (simp add: e r a)
qed


section \<open>Events\<close>

lemma executeNode_try_delivered:
  "\<exists>new. delivered (snd (executeNode_try registry nodeId node ctx this)) = delivered this @ new
         \<and> (\<forall>e \<in> set new. ev_status e \<in> {EvQueued, EvRunning, EvSucceeded} \<and> ev_nodeId e = nodeId)"
  by (auto simp: executeNode_try_def emitEvent_def Let_def
           split: option.splits sum.splits prod.splits)

lemma executeNode_delivered:
  "\<exists>new. delivered (snd (executeNode registry nodeId ctx this)) = delivered this @ new
         \<and> (\<forall>e \<in> set new. ev_status e \<noteq> EvCancelled \<and> ev_nodeId e = nodeId)"
proof (cases "find (\<lambda>n. node_id n = nodeId) (wf_nodes (workflow this))")
  case None
  then show ?thesis by (simp add: executeNode_def)
next
  case (Some node)
  obtain r this1 where t: "executeNode_try registry nodeId node ctx
      (this\<lparr>attempted := attempted this @ [nodeId]\<rparr>) = (r, this1)"
    by (cases "executeNode_try registry nodeId node ctx (this\<lparr>attempted := attempted this @ [nodeId]\<rparr>)")
  obtain new where new: "delivered this1 = delivered this @ new"
      "\<forall>e \<in> set new. ev_status e \<in> {EvQueued, EvRunning, EvSucceeded} \<and> ev_nodeId e = nodeId"
    using executeNode_try_delivered [of registry nodeId node ctx "this\<lparr>attempted := attempted this @ [nodeId]\<rparr>"]
    by (auto simp: t)
  show ?thesis
  proof (cases r)
    case (Inr u)
    with Some t new show ?thesis by (auto simp: executeNode_def)
  next
    case (Inl error)
    with Some t new show ?thesis
      by (auto simp: executeNode_def Let_def emitEvent_def addLog_frame
               split: option.splits sum.splits prod.splits)
  qed
qed

lemma executeNode_order:
  assumes "onEvent (config this) = Some l"
    and "\<And>ev. ev_status ev \<in> {EvQueued, EvSucceeded} \<Longrightarrow> l ev = None"
    and "find (\<lambda>n. node_id n = nodeId) (wf_nodes (workflow this)) \<noteq> None"
  shows "\<exists>f. f \<in> {EvSucceeded, EvFailed} \<and>
           map (\<lambda>e. (ev_nodeId e, ev_status e)) (delivered (snd (executeNode registry nodeId ctx this)))
             = map (\<lambda>e. (ev_nodeId e, ev_status e)) (delivered this)
                 @ [(nodeId, EvQueued), (nodeId, EvRunning), (nodeId, f)]"
  using assms
  by (auto simp: executeNode_def executeNode_try_def emitEvent_def Let_def addLog_frame
           split: option.splits sum.splits prod.splits)

section \<open>Planned nodes are listed nodes\<close>

lemma kahn_loop_subset:
  "set (kahn_loop adjacency nodeMap s) \<subseteq> set (snd (snd s)) \<union> ran (map_of nodeMap)"
proof (induction adjacency nodeMap s rule: kahn_loop.induct)
  case (1 adjacency nodeMap inDegree result)
  then show ?case by (simp add: kahn_loop.simps)
next
  case (2 adjacency nodeMap nodeId queue inDegree result)
  define result' where "result' = (case map_of nodeMap nodeId of Some node \<Rightarrow> result @ [node] | None \<Rightarrow> result)"
  define s where "s = fold relax (get_or_empty adjacency nodeId) (inDegree, queue)"
  have "set (kahn_loop adjacency nodeMap (snd s, fst s, result')) \<subseteq> set result' \<union> ran (map_of nodeMap)"
    using "2.IH" [OF result'_def s_def] by simp
  moreover have "set result' \<subseteq> set result \<union> ran (map_of nodeMap)"
    by (cases "map_of nodeMap nodeId") (auto simp: result'_def ranI)
  moreover have "kahn_loop adjacency nodeMap (nodeId # queue, inDegree, result)
                   = kahn_loop adjacency nodeMap (snd s, fst s, result')"
    unfolding result'_def s_def by (simp add: kahn_loop.simps Let_def)
  ultimately show ?case by (simp only: snd_conv) blast
qed

lemma nodeMap_lookup:
  "map_of (fold (\<lambda>n m. AList.update (node_id n) n m) nodes m0) i = Some n
     \<Longrightarrow> (n \<in> set nodes \<and> node_id n = i) \<or> map_of m0 i = Some n"
proof (induction nodes arbitrary: m0)
  case Nil
  then show ?case by simp
next
  case (Cons a nodes)
  from Cons.prems have "map_of (fold (\<lambda>n m. AList.update (node_id n) n m) nodes
                                  (AList.update (node_id a) a m0)) i = Some n"
    by simp
  from Cons.IH [OF this]
  have "(n \<in> set nodes \<and> node_id n = i) \<or> (if i = node_id a then Some a else map_of m0 i) = Some n"
    by (simp add: update_conv')
  then show ?case by (auto split: if_splits)
qed

lemma ran_nodeMap: "ran (map_of (fold (\<lambda>n m. AList.update (node_id n) n m) nodes [])) \<subseteq> set nodes"
proof
  fix n assume "n \<in> ran (map_of (fold (\<lambda>n m. AList.update (node_id n) n m) nodes []))"
  then obtain i where "map_of (fold (\<lambda>n m. AList.update (node_id n) n m) nodes []) i = Some n"
    by (auto simp: ran_def)
  from nodeMap_lookup [OF this] show "n \<in> set nodes" by simp
qed

lemma topologicalSort_Some:
  assumes "topologicalSort nodes edges = Some sortedNodes"
  shows "\<exists>q d. sortedNodes = kahn_loop (buildAdjacencyList nodes edges)
           (fold (\<lambda>n m. AList.update (node_id n) n m) nodes []) (q, d, [])"
    and "length sortedNodes = length nodes"
proof -
  define r where "r = kahn_loop (buildAdjacencyList nodes edges)
           (fold (\<lambda>n m. AList.update (node_id n) n m) nodes [])
           (map node_id (filter (\<lambda>node. map_of
               (fold (\<lambda>edge m. AList.update (target edge) (get_or_zero m (target edge) + 1) m) edges
                  (fold (\<lambda>node m. AList.update (node_id node) 0 m) nodes [])) (node_id node) = Some 0) nodes),
            fold (\<lambda>edge m. AList.update (target edge) (get_or_zero m (target edge) + 1) m) edges
                  (fold (\<lambda>node m. AList.update (node_id node) 0 m) nodes []),
            [])"
  have "topologicalSort nodes edges = (if length r = length nodes then Some r else None)"
    unfolding topologicalSort_def Let_def r_def ..
  with assms have "sortedNodes = r" "length r = length nodes"
    by (simp_all split: if_splits)
  then show "length sortedNodes = length nodes" by simp
  from \<open>sortedNodes = r\<close> show "\<exists>q d. sortedNodes = kahn_loop (buildAdjacencyList nodes edges)
           (fold (\<lambda>n m. AList.update (node_id n) n m) nodes []) (q, d, [])"
    unfolding r_def by blast
qed


lemma topologicalSort_subset:
  assumes "topologicalSort nodes edges = Some sortedNodes"
  shows "set sortedNodes \<subseteq> set nodes"
proof -
  obtain q d where "sortedNodes = kahn_loop (buildAdjacencyList nodes edges)
           (fold (\<lambda>n m. AList.update (node_id n) n m) nodes []) (q, d, [])"
    using topologicalSort_Some(1) [OF assms] by blast
  then have "set sortedNodes \<subseteq> set (snd (snd (q, d, [] :: WorkflowNode list)))
      \<union> ran (map_of (fold (\<lambda>n m. AList.update (node_id n) n m) nodes []))"
    by (simp only: kahn_loop_subset)
  with ran_nodeMap [of nodes] show ?thesis by auto
qed

lemma plan_nodes_listed:
  assumes "buildExecutionPlan w = Some plan" "ctx \<in> set (plan_nodes plan)"
  shows "find (\<lambda>n. node_id n = ctx_nodeId ctx) (wf_nodes w) \<noteq> None"
proof -
  obtain b where b: "detectCycle (wf_nodes w) (wf_edges w) = Some b"
    using detectCycle_total by blast
  have "ctx_nodeId ctx \<in> node_id ` set (wf_nodes w)"
  proof (cases b)
    case True
    with b buildExecutionPlan_cyclic [of w] assms show ?thesis by auto
  next
    case False
    with b buildExecutionPlan_acyclic [of w] assms
      topologicalSort_subset [of "wf_nodes w" "wf_edges w"]
    show ?thesis
      by (cases "topologicalSort (wf_nodes w) (wf_edges w)") auto
  qed
  then show ?thesis by (auto simp: find_None_iff)
qed

lemma pending_fold_frame:
  fixes f
  defines "f \<equiv> (\<lambda>ctx this.
      this\<lparr>results := AList.update (ctx_nodeId ctx)
        \<lparr>rr_nodeId = ctx_nodeId ctx, rr_status = Pending, rr_output = None, rr_error = None\<rparr>
        (results this)\<rparr>)"
  shows "workflow (fold f ctxs this) = workflow this \<and> config (fold f ctxs this) = config this \<and>
     executionId (fold f ctxs this) = executionId this \<and> delivered (fold f ctxs this) = delivered this \<and>
     invoked (fold f ctxs this) = invoked this \<and> attempted (fold f ctxs this) = attempted this \<and>
     completedNodes (fold f ctxs this) = completedNodes this"
  by (induction ctxs arbitrary: this) (simp_all add: f_def)

section \<open>Facts about the concrete inputs\<close>

lemma ex_runner_fields:
  "workflow (ex_runner w l) = w" "onEvent (config (ex_runner w l)) = l"
  "attempted (ex_runner w l) = []" "delivered (ex_runner w l) = []" "invoked (ex_runner w l) = []"
  by (simp_all add: ex_runner_def new_WorkflowRunner_def ex_config_def)

lemma plan_order_cyclic: "plan_order ex_cyclic = Some (False, [])"
  by code_simp

lemma plan_order_failing_first: "plan_order ex_failing_first = Some (True, [''A'', ''B''])"
  by code_simp

lemma plan_order_single: "plan_order ex_single = Some (True, [''A''])"
  by code_simp

lemma plan_orderD:
  assumes "plan_order w = Some (v, ids)"
  obtains plan where "buildExecutionPlan w = Some plan" "plan_valid plan = v"
    "map ctx_nodeId (plan_nodes plan) = ids"
  using assms by (auto simp: plan_order_def)



section \<open>Runs\<close>

lemma run_try_invalid:
  assumes "buildExecutionPlan (workflow this) = Some plan" "\<not> plan_valid plan"
  shows "run_try registry this =
     Some (Inr \<lparr>workflowId = workflow_id (workflow this), we_executionId = executionId this,
                we_status = Error,
                we_results = map (\<lambda>(index, error). synthetic_plan_error index error)
                               (enumerate 0 (plan_errors plan))\<rparr>, this)"
  using assms by (simp add: run_try_def synthetic_plan_error_def)

lemma run_try_valid:
  assumes "buildExecutionPlan (workflow this) = Some plan" "plan_valid plan"
  shows "\<exists>this1. workflow this1 = workflow this \<and> config this1 = config this \<and>
           executionId this1 = executionId this \<and> delivered this1 = delivered this \<and>
           invoked this1 = invoked this \<and> attempted this1 = attempted this \<and>
           run_try registry this =
             Some (case execute_all registry (plan_nodes plan) this1 of
                     (Inl e, this2) \<Rightarrow> (Inl e, this2)
                   | (Inr u, this2) \<Rightarrow>
                       (Inr \<lparr>workflowId = workflow_id (workflow this2),
                             we_executionId = executionId this2,
                             we_status = (if \<exists>r \<in> set (map snd (results this2)). rr_status r = Error
                                          then Error else Success),
                             we_results = map snd (results this2)\<rparr>, this2))"
proof -
  define this1 where "this1 = fold (\<lambda>ctx this.
      this\<lparr>results := AList.update (ctx_nodeId ctx)
        \<lparr>rr_nodeId = ctx_nodeId ctx, rr_status = Pending, rr_output = None, rr_error = None\<rparr>
        (results this)\<rparr>) (plan_nodes plan) this"
  have "workflow this1 = workflow this \<and> config this1 = config this \<and>
     executionId this1 = executionId this \<and> delivered this1 = delivered this \<and>
     invoked this1 = invoked this \<and> attempted this1 = attempted this \<and>
     completedNodes this1 = completedNodes this"
    unfolding this1_def by (rule pending_fold_frame)
  moreover have "run_try registry this =
             Some (case execute_all registry (plan_nodes plan) this1 of
                     (Inl e, this2) \<Rightarrow> (Inl e, this2)
                   | (Inr u, this2) \<Rightarrow>
                       (Inr \<lparr>workflowId = workflow_id (workflow this2),
                             we_executionId = executionId this2,
                             we_status = (if \<exists>r \<in> set (map snd (results this2)). rr_status r = Error
                                          then Error else Success),
                             we_results = map snd (results this2)\<rparr>, this2))"
  proof (cases "execute_all registry (plan_nodes plan) this1")
    case (Pair r this2)
    have "run_try registry this =
            Some (case (r, this2) of
                     (Inl e, this2) \<Rightarrow> (Inl e, this2)
                   | (Inr u, this2) \<Rightarrow>
                       (let hasErrors = (\<exists>r \<in> set (map snd (results this2)). rr_status r = Error)
                        in (Inr \<lparr>workflowId = workflow_id (workflow this2),
                                 we_executionId = executionId this2,
                                 we_status = (if hasErrors then Error else Success),
                                 we_results = map snd (results this2)\<rparr>,
                            this2)))"
      unfolding Pair [symmetric] this1_def run_try_def using assms by (simp add: Let_def)
    then show ?thesis
      unfolding Pair by (cases r) (simp_all add: Let_def)
  qed
  ultimately show ?thesis by blast
qed

text \<open>
  C5. When the execution plan of the workflow is invalid, \<^verbatim>\<open>run\<close> returns an execution with
  overall status \<^verbatim>\<open>error\<close> whose results are, in order, one synthetic result per planning
  error string, each with status \<^verbatim>\<open>error\<close>, error code \<^verbatim>\<open>PLAN_ERROR\<close> and the error
  string as its message; the runner is left exactly as it was, so no node was attempted,
  no executor was invoked and no event was delivered.
\<close>

theorem run_invalid_plan:
  assumes "buildExecutionPlan (workflow this) = Some plan" and "\<not> plan_valid plan"
  shows "\<exists>execution. run registry this = Some (execution, this) \<and>
           we_status execution = Error \<and>
           length (we_results execution) = length (plan_errors plan) \<and>
           (\<forall>i < length (plan_errors plan).
              we_results execution ! i =
                \<lparr>rr_nodeId = ''error-'' @ show_nat i, rr_status = Error, rr_output = None,
                 rr_error = Some \<lparr>err_message = plan_errors plan ! i,
                                  err_code = Some ''PLAN_ERROR''\<rparr>\<rparr>)"
  using run_try_invalid [OF assms, of registry]
  by (simp add: run_def nth_enumerate_eq synthetic_plan_error_def)


theorem run_invalid_plan_witness:
  "\<exists>execution. run ex_registry (ex_runner ex_cyclic None) = Some (execution, ex_runner ex_cyclic None) \<and>
      we_status execution = Error \<and> length (we_results execution) = 1 \<and>
      rr_nodeId (we_results execution ! 0) = ''error-0'' \<and>
      rr_status (we_results execution ! 0) = Error"
proof -
  obtain plan where plan: "buildExecutionPlan (workflow (ex_runner ex_cyclic None)) = Some plan"
      "\<not> plan_valid plan"
    using plan_order_cyclic by (auto elim!: plan_orderD simp: ex_runner_fields)
  have "length (plan_errors plan) = 1"
    using buildExecutionPlan_errors(1) [OF plan(1)] plan(2) by simp
  with run_invalid_plan [OF plan, of ex_registry] show ?thesis
    by (auto simp: show_nat.simps)
qed

lemma run_try_total: "\<exists>r this1. run_try registry this = Some (r, this1)"
  using buildExecutionPlan_total [of "workflow this"]
  by (auto simp: run_try_def)

lemma run_try_frame:
  assumes "run_try registry this = Some (r, this1)"
  shows "workflow this1 = workflow this \<and> config this1 = config this \<and> executionId this1 = executionId this"
proof -
  obtain plan where plan: "buildExecutionPlan (workflow this) = Some plan"
    using buildExecutionPlan_total by blast
  show ?thesis
  proof (cases "plan_valid plan")
    case False
    with run_try_invalid [OF plan, of registry] assms show ?thesis by simp
  next
    case True
    from run_try_valid [OF plan True, of registry] obtain this0 where
      f: "workflow this0 = workflow this" "config this0 = config this" "executionId this0 = executionId this"
      and rt: "run_try registry this =
             Some (case execute_all registry (plan_nodes plan) this0 of
                     (Inl e, this2) \<Rightarrow> (Inl e, this2)
                   | (Inr u, this2) \<Rightarrow>
                       (Inr \<lparr>workflowId = workflow_id (workflow this2),
                             we_executionId = executionId this2,
                             we_status = (if \<exists>r \<in> set (map snd (results this2)). rr_status r = Error
                                          then Error else Success),
                             we_results = map snd (results this2)\<rparr>, this2))"
      by blast
    obtain x this2 where e: "execute_all registry (plan_nodes plan) this0 = (x, this2)"
      by (cases "execute_all registry (plan_nodes plan) this0")
    have "this1 = this2"
      using rt assms e by (cases x) simp_all
    with execute_all_frame [of registry "plan_nodes plan" this0] f e show ?thesis by simp
  qed
qed

text \<open>
  C6. \<^verbatim>\<open>run\<close> always returns an execution record carrying the workflow id and the
  execution id of the runner, whatever the workflow, the configuration, the registry and
  the state of the runner. When an exception leaves the body of \<^verbatim>\<open>run\<close> (the planning
  step or the loop over the planned nodes), the record has overall status \<^verbatim>\<open>error\<close> and
  exactly one result, with node id \<^verbatim>\<open>runner\<close>, status \<^verbatim>\<open>error\<close>, error code
  \<^verbatim>\<open>RUNNER_ERROR\<close> and the thrown error's message; otherwise it is the record the body
  returned.
\<close>

theorem run_never_throws:
  "\<exists>execution this1. run registry this = Some (execution, this1) \<and>
      workflowId execution = workflow_id (workflow this) \<and>
      we_executionId execution = executionId this \<and>
      (\<forall>e this2. run_try registry this = Some (Inl e, this2) \<longrightarrow>
         we_status execution = Error \<and>
         we_results execution =
           [\<lparr>rr_nodeId = ''runner'', rr_status = Error, rr_output = None,
             rr_error = Some \<lparr>err_message = (case e of ErrorObject m c \<Rightarrow> m | NotAnError \<Rightarrow> ''Unknown error''),
                              err_code = Some ''RUNNER_ERROR''\<rparr>\<rparr>]) \<and>
      (\<forall>returned this2. run_try registry this = Some (Inr returned, this2) \<longrightarrow> execution = returned)"
proof -
  obtain r this1 where rt: "run_try registry this = Some (r, this1)"
    using run_try_total by blast
  note f = run_try_frame [OF rt]
  show ?thesis
  proof (cases r)
    case (Inl e)
    with rt f show ?thesis by (simp add: run_def)
  next
    case (Inr returned)
    obtain plan where plan: "buildExecutionPlan (workflow this) = Some plan"
      using buildExecutionPlan_total by blast
    have "workflowId returned = workflow_id (workflow this) \<and> we_executionId returned = executionId this"
    proof (cases "plan_valid plan")
      case False
      with run_try_invalid [OF plan, of registry] rt Inr show ?thesis by auto
    next
      case True
      from run_try_valid [OF plan True, of registry] obtain this0 where
        rt': "run_try registry this =
             Some (case execute_all registry (plan_nodes plan) this0 of
                     (Inl e, this2) \<Rightarrow> (Inl e, this2)
                   | (Inr u, this2) \<Rightarrow>
                       (Inr \<lparr>workflowId = workflow_id (workflow this2),
                             we_executionId = executionId this2,
                             we_status = (if \<exists>r \<in> set (map snd (results this2)). rr_status r = Error
                                          then Error else Success),
                             we_results = map snd (results this2)\<rparr>, this2))"
        by blast
      obtain x this2 where e: "execute_all registry (plan_nodes plan) this0 = (x, this2)"
        by (cases "execute_all registry (plan_nodes plan) this0")
      from rt rt' e Inr have "this1 = this2"
          "returned = \<lparr>workflowId = workflow_id (workflow this2),
                             we_executionId = executionId this2,
                             we_status = (if \<exists>r \<in> set (map snd (results this2)). rr_status r = Error
                                          then Error else Success),
                             we_results = map snd (results this2)\<rparr>"
        by (cases x; simp)+
      with f show ?thesis by simp
    qed
    with rt Inr show ?thesis by (simp add: run_def)
  qed
qed

lemma executeNode_try_results_other:
  "k \<noteq> nodeId \<Longrightarrow>
     map_of (results (snd (executeNode_try registry nodeId node ctx this))) k = map_of (results this) k"
  by (auto simp: executeNode_try_def emitEvent_def Let_def update_conv'
           split: option.splits sum.splits prod.splits)

lemma executeNode_results_other:
  "k \<noteq> nodeId \<Longrightarrow>
     map_of (results (snd (executeNode registry nodeId ctx this))) k = map_of (results this) k"
proof (cases "find (\<lambda>n. node_id n = nodeId) (wf_nodes (workflow this))")
  case None
  then show ?thesis by (simp add: executeNode_def)
next
  case (Some node)
  assume k: "k \<noteq> nodeId"
  obtain r this1 where t: "executeNode_try registry nodeId node ctx
      (this\<lparr>attempted := attempted this @ [nodeId]\<rparr>) = (r, this1)"
    by (cases "executeNode_try registry nodeId node ctx (this\<lparr>attempted := attempted this @ [nodeId]\<rparr>)")
  have o: "map_of (results this1) k = map_of (results this) k"
    using executeNode_try_results_other [OF k, of registry node ctx "this\<lparr>attempted := attempted this @ [nodeId]\<rparr>"]
    by (simp add: t)
  show ?thesis
  proof (cases r)
    case (Inr u)
    with Some t o show ?thesis by (simp add: executeNode_def)
  next
    case (Inl error)
    with Some t o k show ?thesis
      by (auto simp: executeNode_def Let_def emitEvent_def addLog_frame update_conv'
               split: option.splits sum.splits prod.splits)
  qed
qed

lemma executeNode_try_result:
  assumes "executeNode_try registry nodeId node ctx this = (Inr u, this1)"
  shows "\<exists>r. map_of (results this1) nodeId = Some r \<and> rr_nodeId r = nodeId \<and> rr_status r = Success"
  using assms
  by (auto simp: executeNode_try_def emitEvent_def Let_def update_conv' executeWithTimeout_def
           split: option.splits sum.splits prod.splits settlement.splits if_splits)

lemma executeNode_result:
  assumes "fst (executeNode registry nodeId ctx this) = Inr ()"
    and "find (\<lambda>n. node_id n = nodeId) (wf_nodes (workflow this)) \<noteq> None"
  shows "\<exists>r. map_of (results (snd (executeNode registry nodeId ctx this))) nodeId = Some r \<and>
             rr_nodeId r = nodeId \<and> rr_status r \<in> {Success, Error}"
proof -
  obtain node where Some: "find (\<lambda>n. node_id n = nodeId) (wf_nodes (workflow this)) = Some node"
    using assms(2) by auto
  obtain r this1 where t: "executeNode_try registry nodeId node ctx
      (this\<lparr>attempted := attempted this @ [nodeId]\<rparr>) = (r, this1)"
    by (cases "executeNode_try registry nodeId node ctx (this\<lparr>attempted := attempted this @ [nodeId]\<rparr>)")
  show ?thesis
  proof (cases r)
    case (Inr u)
    with executeNode_try_result [of registry nodeId node ctx _ u this1] t Some show ?thesis
      by (auto simp: executeNode_def)
  next
    case (Inl error)
    with Some t assms(1) show ?thesis
      by (auto simp: executeNode_def Let_def emitEvent_def addLog_frame update_conv'
               split: option.splits sum.splits prod.splits)
  qed
qed


lemma execute_all_results_other:
  "k \<notin> ctx_nodeId ` set ctxs \<Longrightarrow>
     map_of (results (snd (execute_all registry ctxs this))) k = map_of (results this) k"
proof (induction ctxs arbitrary: this)
  case Nil
  then show ?case by simp
next
  case (Cons ctx ctxs)
  obtain r this1 where e: "executeNode registry (ctx_nodeId ctx) ctx this = (r, this1)"
    by (cases "executeNode registry (ctx_nodeId ctx) ctx this")
  have o: "map_of (results this1) k = map_of (results this) k"
    using executeNode_results_other [of k "ctx_nodeId ctx" registry ctx this] Cons.prems
    by (simp add: e)
  show ?case
  proof (cases r)
    case (Inl a)
    then show ?thesis using o by (simp add: e)
  next
    case (Inr u)
    then show ?thesis using o Cons.IH [of this1] Cons.prems by (simp add: e)
  qed
qed

lemma execute_all_results:
  assumes "\<And>l ev. onEvent (config this) = Some l \<Longrightarrow> ev_status ev = EvFailed \<Longrightarrow> l ev = None"
    and "\<And>ctx. ctx \<in> set ctxs \<Longrightarrow> find (\<lambda>n. node_id n = ctx_nodeId ctx) (wf_nodes (workflow this)) \<noteq> None"
    and "ctx \<in> set ctxs"
  shows "\<exists>r. map_of (results (snd (execute_all registry ctxs this))) (ctx_nodeId ctx) = Some r \<and>
             rr_nodeId r = ctx_nodeId ctx \<and> rr_status r \<in> {Success, Error}"
  using assms
proof (induction ctxs arbitrary: this ctx)
  case Nil
  then show ?case by simp
next
  case (Cons c ctxs)
  obtain r this1 where e: "executeNode registry (ctx_nodeId c) c this = (r, this1)"
    by (cases "executeNode registry (ctx_nodeId c) c this")
  have r: "r = Inr ()"
    using executeNode_returns [of this registry "ctx_nodeId c" c] Cons.prems(1) by (simp add: e)
  have f: "workflow this1 = workflow this" "config this1 = config this"
    using executeNode_frame [of registry "ctx_nodeId c" c this] by (simp_all add: e)
  have all: "execute_all registry (c # ctxs) this = execute_all registry ctxs this1"
    by (simp add: e r)
  show ?case
  proof (cases "ctx_nodeId ctx \<in> ctx_nodeId ` set ctxs")
    case True
    then obtain ctx' where c': "ctx' \<in> set ctxs" "ctx_nodeId ctx' = ctx_nodeId ctx" by auto
    have "\<exists>r. map_of (results (snd (execute_all registry ctxs this1))) (ctx_nodeId ctx') = Some r \<and>
             rr_nodeId r = ctx_nodeId ctx' \<and> rr_status r \<in> {Success, Error}"
    proof (rule Cons.IH)
      show "\<And>l ev. onEvent (config this1) = Some l \<Longrightarrow> ev_status ev = EvFailed \<Longrightarrow> l ev = None"
        using Cons.prems(1) by (simp add: f)
      show "\<And>ctx. ctx \<in> set ctxs \<Longrightarrow>
              find (\<lambda>n. node_id n = ctx_nodeId ctx) (wf_nodes (workflow this1)) \<noteq> None"
        using Cons.prems(2) by (simp add: f)
      show "ctx' \<in> set ctxs" by (rule c'(1))
    qed
    then show ?thesis unfolding all by (simp add: c'(2))
  next
    case False
    with Cons.prems(3) have eq: "ctx_nodeId ctx = ctx_nodeId c" by auto
    have "\<exists>r. map_of (results this1) (ctx_nodeId c) = Some r \<and>
             rr_nodeId r = ctx_nodeId c \<and> rr_status r \<in> {Success, Error}"
      using executeNode_result [of registry "ctx_nodeId c" c this] Cons.prems(2) [of c]
      by (simp add: e r)
    moreover have "map_of (results (snd (execute_all registry ctxs this1))) (ctx_nodeId c)
                     = map_of (results this1) (ctx_nodeId c)"
      by (rule execute_all_results_other) (use False eq in simp)
    ultimately show ?thesis unfolding all by (simp add: eq)
  qed
qed

text \<open>
  C3 (amended). For every run over a valid plan in which the event listener does not
  throw when it is handed a \<^verbatim>\<open>failed\<close> event (in particular when no listener is
  configured), and whatever the executors do (return, throw, time out, or be missing):
  \<^verbatim>\<open>run\<close> returns; every planned node is attempted, in plan order; every planned node
  has a result with status \<^verbatim>\<open>success\<close> or \<^verbatim>\<open>error\<close> among the returned results; and the
  overall status is \<^verbatim>\<open>error\<close> if at least one returned result has status \<^verbatim>\<open>error\<close>, and
  \<^verbatim>\<open>success\<close> otherwise.
\<close>

theorem run_attempts_every_node:
  assumes "buildExecutionPlan (workflow this) = Some plan" and "plan_valid plan"
    and "\<And>l ev. onEvent (config this) = Some l \<Longrightarrow> ev_status ev = EvFailed \<Longrightarrow> l ev = None"
  shows "\<exists>execution this1. run registry this = Some (execution, this1) \<and>
      attempted this1 = attempted this @ map ctx_nodeId (plan_nodes plan) \<and>
      (\<forall>ctx \<in> set (plan_nodes plan). \<exists>r \<in> set (we_results execution).
          rr_nodeId r = ctx_nodeId ctx \<and> rr_status r \<in> {Success, Error}) \<and>
      we_status execution =
        (if \<exists>r \<in> set (we_results execution). rr_status r = Error then Error else Success)"
proof -
  from run_try_valid [OF assms(1,2), of registry] obtain this0 where
    f: "workflow this0 = workflow this" "config this0 = config this" "attempted this0 = attempted this"
    and rt: "run_try registry this =
             Some (case execute_all registry (plan_nodes plan) this0 of
                     (Inl e, this2) \<Rightarrow> (Inl e, this2)
                   | (Inr u, this2) \<Rightarrow>
                       (Inr \<lparr>workflowId = workflow_id (workflow this2),
                             we_executionId = executionId this2,
                             we_status = (if \<exists>r \<in> set (map snd (results this2)). rr_status r = Error
                                          then Error else Success),
                             we_results = map snd (results this2)\<rparr>, this2))"
    by blast
  obtain x this2 where e: "execute_all registry (plan_nodes plan) this0 = (x, this2)"
    by (cases "execute_all registry (plan_nodes plan) this0")
  have listener: "\<And>l ev. onEvent (config this0) = Some l \<Longrightarrow> ev_status ev = EvFailed \<Longrightarrow> l ev = None"
    using assms(3) f by simp
  have found: "\<And>ctx. ctx \<in> set (plan_nodes plan) \<Longrightarrow>
      find (\<lambda>n. node_id n = ctx_nodeId ctx) (wf_nodes (workflow this0)) \<noteq> None"
    using plan_nodes_listed [OF assms(1)] f by simp
  have x: "x = Inr ()" and a: "attempted this2 = attempted this @ map ctx_nodeId (plan_nodes plan)"
    using execute_all_returns [of this0 "plan_nodes plan" registry] listener found f
    by (simp_all add: e)
  have res: "\<exists>r \<in> set (map snd (results this2)). rr_nodeId r = ctx_nodeId ctx \<and> rr_status r \<in> {Success, Error}"
    if ctx: "ctx \<in> set (plan_nodes plan)" for ctx
  proof -
    obtain r where "map_of (results this2) (ctx_nodeId ctx) = Some r"
        "rr_nodeId r = ctx_nodeId ctx" "rr_status r \<in> {Success, Error}"
      using execute_all_results [of this0 "plan_nodes plan" ctx registry] listener found ctx
      by (auto simp: e)
    moreover from this(1) have "(ctx_nodeId ctx, r) \<in> set (results this2)"
      by (rule map_of_SomeD)
    ultimately show ?thesis by force
  qed
  show ?thesis
    using rt e x a res by (simp add: run_def)
qed

lemma execute_all_delivered:
  "\<exists>new. delivered (snd (execute_all registry ctxs this)) = delivered this @ new
         \<and> (\<forall>e \<in> set new. ev_status e \<noteq> EvCancelled)"
proof (induction ctxs arbitrary: this)
  case Nil
  then show ?case by simp
next
  case (Cons ctx ctxs)
  obtain r this1 where e: "executeNode registry (ctx_nodeId ctx) ctx this = (r, this1)"
    by (cases "executeNode registry (ctx_nodeId ctx) ctx this")
  obtain new1 where n1: "delivered this1 = delivered this @ new1" "\<forall>e \<in> set new1. ev_status e \<noteq> EvCancelled"
    using executeNode_delivered [of registry "ctx_nodeId ctx" ctx this] by (auto simp: e)
  show ?case
  proof (cases r)
    case (Inl a)
    then show ?thesis using n1 by (simp add: e)
  next
    case (Inr u)
    obtain new2 where "delivered (snd (execute_all registry ctxs this1)) = delivered this1 @ new2"
        "\<forall>e \<in> set new2. ev_status e \<noteq> EvCancelled"
      using Cons.IH [of this1] by blast
    with n1 have "delivered (snd (execute_all registry ctxs this1)) = delivered this @ (new1 @ new2)
        \<and> (\<forall>e \<in> set (new1 @ new2). ev_status e \<noteq> EvCancelled)"
      by auto
    then show ?thesis using Inr by (simp only: execute_all.simps e prod.case sum.case) blast
  qed
qed

lemma execute_all_order:
  assumes "onEvent (config this) = Some l"
    and "\<And>ev. ev_status ev \<in> {EvQueued, EvSucceeded} \<Longrightarrow> l ev = None"
    and "\<And>ctx. ctx \<in> set ctxs \<Longrightarrow> find (\<lambda>n. node_id n = ctx_nodeId ctx) (wf_nodes (workflow this)) \<noteq> None"
  shows "\<exists>fs. length fs \<le> length ctxs \<and> set fs \<subseteq> {EvSucceeded, EvFailed} \<and>
           ((\<forall>ev. ev_status ev = EvFailed \<longrightarrow> l ev = None) \<longrightarrow> length fs = length ctxs) \<and>
           attempted (snd (execute_all registry ctxs this))
             = attempted this @ map ctx_nodeId (take (length fs) ctxs) \<and>
           map (\<lambda>e. (ev_nodeId e, ev_status e)) (delivered (snd (execute_all registry ctxs this)))
             = map (\<lambda>e. (ev_nodeId e, ev_status e)) (delivered this)
                 @ concat (map (\<lambda>(ctx, f). [(ctx_nodeId ctx, EvQueued), (ctx_nodeId ctx, EvRunning),
                                              (ctx_nodeId ctx, f)]) (zip ctxs fs))"
  using assms
proof (induction ctxs arbitrary: this)
  case Nil
  then show ?case by simp
next
  case (Cons ctx ctxs)
  obtain r this1 where e: "executeNode registry (ctx_nodeId ctx) ctx this = (r, this1)"
    by (cases "executeNode registry (ctx_nodeId ctx) ctx this")
  have listed: "find (\<lambda>n. node_id n = ctx_nodeId ctx) (wf_nodes (workflow this)) \<noteq> None"
    by (rule Cons.prems(3)) simp
  have f: "workflow this1 = workflow this" "config this1 = config this"
    using executeNode_frame [of registry "ctx_nodeId ctx" ctx this] by (simp_all add: e)
  have a1: "attempted this1 = attempted this @ [ctx_nodeId ctx]"
    using executeNode_attempted [of registry "ctx_nodeId ctx" ctx this] listed by (simp add: e)
  have "\<exists>f. f \<in> {EvSucceeded, EvFailed} \<and>
           map (\<lambda>e. (ev_nodeId e, ev_status e))
               (delivered (snd (executeNode registry (ctx_nodeId ctx) ctx this)))
             = map (\<lambda>e. (ev_nodeId e, ev_status e)) (delivered this)
                 @ [(ctx_nodeId ctx, EvQueued), (ctx_nodeId ctx, EvRunning), (ctx_nodeId ctx, f)]"
    using Cons.prems(1,2) listed by (rule executeNode_order)
  then obtain f1 where f1: "f1 \<in> {EvSucceeded, EvFailed}"
      "map (\<lambda>e. (ev_nodeId e, ev_status e)) (delivered this1)
         = map (\<lambda>e. (ev_nodeId e, ev_status e)) (delivered this)
             @ [(ctx_nodeId ctx, EvQueued), (ctx_nodeId ctx, EvRunning), (ctx_nodeId ctx, f1)]"
    unfolding e snd_conv by blast
  show ?case
  proof (cases r)
    case (Inl thrown)
    have all: "execute_all registry (ctx # ctxs) this = (Inl thrown, this1)"
      by (simp add: e Inl)
    have "\<not> (\<forall>ev. ev_status ev = EvFailed \<longrightarrow> l ev = None)"
    proof
      assume q: "\<forall>ev. ev_status ev = EvFailed \<longrightarrow> l ev = None"
      have "fst (executeNode registry (ctx_nodeId ctx) ctx this) = Inr ()"
      proof (rule executeNode_returns)
        fix l' and ev :: ExecutionEvent
        assume "onEvent (config this) = Some l'" "ev_status ev = EvFailed"
        then show "l' ev = None" using Cons.prems(1) q by auto
      qed
      then show False by (simp add: e Inl)
    qed
    then show ?thesis
      unfolding all snd_conv using f1 a1 by (intro exI [of _ "[f1]"]) auto
  next
    case (Inr u)
    have all: "execute_all registry (ctx # ctxs) this = execute_all registry ctxs this1"
      by (simp add: e Inr)
    have "\<exists>fs. length fs \<le> length ctxs \<and> set fs \<subseteq> {EvSucceeded, EvFailed} \<and>
           ((\<forall>ev. ev_status ev = EvFailed \<longrightarrow> l ev = None) \<longrightarrow> length fs = length ctxs) \<and>
           attempted (snd (execute_all registry ctxs this1))
             = attempted this1 @ map ctx_nodeId (take (length fs) ctxs) \<and>
           map (\<lambda>e. (ev_nodeId e, ev_status e)) (delivered (snd (execute_all registry ctxs this1)))
             = map (\<lambda>e. (ev_nodeId e, ev_status e)) (delivered this1)
                 @ concat (map (\<lambda>(ctx, f). [(ctx_nodeId ctx, EvQueued), (ctx_nodeId ctx, EvRunning),
                                              (ctx_nodeId ctx, f)]) (zip ctxs fs))"
    proof (rule Cons.IH)
      show "onEvent (config this1) = Some l" using Cons.prems(1) by (simp add: f)
      show "\<And>ev. ev_status ev \<in> {EvQueued, EvSucceeded} \<Longrightarrow> l ev = None" by (rule Cons.prems(2))
      show "\<And>ctx. ctx \<in> set ctxs \<Longrightarrow>
              find (\<lambda>n. node_id n = ctx_nodeId ctx) (wf_nodes (workflow this1)) \<noteq> None"
        using Cons.prems(3) by (simp add: f)
    qed
    then obtain fs where fs: "length fs \<le> length ctxs" "set fs \<subseteq> {EvSucceeded, EvFailed}"
        "(\<forall>ev. ev_status ev = EvFailed \<longrightarrow> l ev = None) \<longrightarrow> length fs = length ctxs"
        "attempted (snd (execute_all registry ctxs this1))
             = attempted this1 @ map ctx_nodeId (take (length fs) ctxs)"
        "map (\<lambda>e. (ev_nodeId e, ev_status e)) (delivered (snd (execute_all registry ctxs this1)))
             = map (\<lambda>e. (ev_nodeId e, ev_status e)) (delivered this1)
                 @ concat (map (\<lambda>(ctx, f). [(ctx_nodeId ctx, EvQueued), (ctx_nodeId ctx, EvRunning),
                                              (ctx_nodeId ctx, f)]) (zip ctxs fs))"
      by blast
    show ?thesis
      unfolding all using fs f1 a1 by (intro exI [of _ "f1 # fs"]) auto
  qed
qed

text \<open>
  C7 (amended). \<^verbatim>\<open>run\<close> never hands the listener an event with status \<^verbatim>\<open>cancelled\<close>.
  When the plan is valid and the configured listener does not throw on a \<^verbatim>\<open>queued\<close> or a
  \<^verbatim>\<open>succeeded\<close> event, the events it receives during the run are, for each attempted node
  in plan order, exactly \<^verbatim>\<open>queued\<close>, then \<^verbatim>\<open>running\<close>, then one of \<^verbatim>\<open>succeeded\<close> or
  \<^verbatim>\<open>failed\<close>, each carrying the id of that node. The attempted nodes are a prefix of the
  plan, and all of it when the listener does not throw on a \<^verbatim>\<open>failed\<close> event either.
\<close>

theorem run_event_order:
  "\<exists>execution this1. run registry this = Some (execution, this1) \<and>
     (\<exists>new. delivered this1 = delivered this @ new \<and> (\<forall>e \<in> set new. ev_status e \<noteq> EvCancelled)) \<and>
     (\<forall>plan l. buildExecutionPlan (workflow this) = Some plan \<and> plan_valid plan \<and>
         onEvent (config this) = Some l \<and>
         (\<forall>ev. ev_status ev \<in> {EvQueued, EvSucceeded} \<longrightarrow> l ev = None) \<longrightarrow>
        (\<exists>fs. length fs \<le> length (plan_nodes plan) \<and> set fs \<subseteq> {EvSucceeded, EvFailed} \<and>
           ((\<forall>ev. ev_status ev = EvFailed \<longrightarrow> l ev = None) \<longrightarrow> length fs = length (plan_nodes plan)) \<and>
           attempted this1 = attempted this @ map ctx_nodeId (take (length fs) (plan_nodes plan)) \<and>
           map (\<lambda>e. (ev_nodeId e, ev_status e)) (delivered this1)
             = map (\<lambda>e. (ev_nodeId e, ev_status e)) (delivered this)
                 @ concat (map (\<lambda>(ctx, f). [(ctx_nodeId ctx, EvQueued), (ctx_nodeId ctx, EvRunning),
                                              (ctx_nodeId ctx, f)]) (zip (plan_nodes plan) fs))))"
proof -
  obtain plan where plan: "buildExecutionPlan (workflow this) = Some plan"
    using buildExecutionPlan_total by blast
  show ?thesis
  proof (cases "plan_valid plan")
    case False
    with run_try_invalid [OF plan, of registry] plan show ?thesis
      by (simp add: run_def)
  next
    case True
    from run_try_valid [OF plan True, of registry] obtain this0 where
      f: "workflow this0 = workflow this" "config this0 = config this" "delivered this0 = delivered this"
         "attempted this0 = attempted this"
      and rt: "run_try registry this =
             Some (case execute_all registry (plan_nodes plan) this0 of
                     (Inl e, this2) \<Rightarrow> (Inl e, this2)
                   | (Inr u, this2) \<Rightarrow>
                       (Inr \<lparr>workflowId = workflow_id (workflow this2),
                             we_executionId = executionId this2,
                             we_status = (if \<exists>r \<in> set (map snd (results this2)). rr_status r = Error
                                          then Error else Success),
                             we_results = map snd (results this2)\<rparr>, this2))"
      by blast
    obtain x this2 where e: "execute_all registry (plan_nodes plan) this0 = (x, this2)"
      by (cases "execute_all registry (plan_nodes plan) this0")
    obtain execution where run: "run registry this = Some (execution, this2)"
      using rt e by (cases x) (simp_all add: run_def)
    have d: "\<exists>new. delivered this2 = delivered this @ new \<and> (\<forall>e \<in> set new. ev_status e \<noteq> EvCancelled)"
      using execute_all_delivered [of registry "plan_nodes plan" this0] f by (simp add: e)
    have q: "\<exists>fs. length fs \<le> length (plan_nodes plan) \<and> set fs \<subseteq> {EvSucceeded, EvFailed} \<and>
           ((\<forall>ev. ev_status ev = EvFailed \<longrightarrow> l ev = None) \<longrightarrow> length fs = length (plan_nodes plan)) \<and>
           attempted this2 = attempted this @ map ctx_nodeId (take (length fs) (plan_nodes plan)) \<and>
           map (\<lambda>e. (ev_nodeId e, ev_status e)) (delivered this2)
             = map (\<lambda>e. (ev_nodeId e, ev_status e)) (delivered this)
                 @ concat (map (\<lambda>(ctx, f). [(ctx_nodeId ctx, EvQueued), (ctx_nodeId ctx, EvRunning),
                                              (ctx_nodeId ctx, f)]) (zip (plan_nodes plan) fs))"
      if l: "onEvent (config this) = Some l" "\<forall>ev. ev_status ev \<in> {EvQueued, EvSucceeded} \<longrightarrow> l ev = None"
      for l
    proof -
      have "\<exists>fs. length fs \<le> length (plan_nodes plan) \<and> set fs \<subseteq> {EvSucceeded, EvFailed} \<and>
           ((\<forall>ev. ev_status ev = EvFailed \<longrightarrow> l ev = None) \<longrightarrow> length fs = length (plan_nodes plan)) \<and>
           attempted (snd (execute_all registry (plan_nodes plan) this0))
             = attempted this0 @ map ctx_nodeId (take (length fs) (plan_nodes plan)) \<and>
           map (\<lambda>e. (ev_nodeId e, ev_status e)) (delivered (snd (execute_all registry (plan_nodes plan) this0)))
             = map (\<lambda>e. (ev_nodeId e, ev_status e)) (delivered this0)
                 @ concat (map (\<lambda>(ctx, f). [(ctx_nodeId ctx, EvQueued), (ctx_nodeId ctx, EvRunning),
                                              (ctx_nodeId ctx, f)]) (zip (plan_nodes plan) fs))"
      proof (rule execute_all_order)
        show "onEvent (config this0) = Some l" using l(1) by (simp add: f)
        show "\<And>ev. ev_status ev \<in> {EvQueued, EvSucceeded} \<Longrightarrow> l ev = None" using l(2) by blast
        show "\<And>ctx. ctx \<in> set (plan_nodes plan) \<Longrightarrow>
            find (\<lambda>n. node_id n = ctx_nodeId ctx) (wf_nodes (workflow this0)) \<noteq> None"
          using plan_nodes_listed [OF plan] by (simp add: f)
      qed
      then show ?thesis by (simp add: e f)
    qed
    show ?thesis
      using run d q plan by auto
  qed
qed


section \<open>Runs on the concrete inputs\<close>

lemma plan_nodes_two:
  assumes "map ctx_nodeId (plan_nodes plan) = [a, b]"
  obtains ca cb where "plan_nodes plan = [ca, cb]" "ctx_nodeId ca = a" "ctx_nodeId cb = b"
  using assms by (auto simp: map_eq_Cons_conv)

lemma plan_nodes_one:
  assumes "map ctx_nodeId (plan_nodes plan) = [a]"
  obtains ca where "plan_nodes plan = [ca]" "ctx_nodeId ca = a"
  using assms by (auto simp: map_eq_Cons_conv)

lemma executeNode_failing_listener_throws:
  assumes "workflow this = ex_failing_first" "onEvent (config this) = Some (ex_throws_on EvFailed)"
  shows "fst (executeNode ex_registry ''A'' ctx this) = Inl (ErrorObject ''listener failed'' None)"
    and "attempted (snd (executeNode ex_registry ''A'' ctx this)) = attempted this @ [''A'']"
  using assms
  by (simp_all add: executeNode_def executeNode_try_def emitEvent_def Let_def ex_failing_first_def
        ex_workflow_def ex_node_def ex_registry_def ex_throws_on_def executeWithTimeout_def addLog_def)

lemma executeNode_succeeded_listener_throws:
  assumes "workflow this = ex_single" "onEvent (config this) = Some (ex_throws_on EvSucceeded)"
  shows "fst (executeNode ex_registry ''A'' ctx this) = Inr ()"
    and "map (\<lambda>e. (ev_nodeId e, ev_status e)) (delivered (snd (executeNode ex_registry ''A'' ctx this)))
           = map (\<lambda>e. (ev_nodeId e, ev_status e)) (delivered this)
               @ [(''A'', EvQueued), (''A'', EvRunning), (''A'', EvSucceeded), (''A'', EvFailed)]"
  using assms
  by (simp_all add: executeNode_def executeNode_try_def emitEvent_def Let_def ex_single_def
        ex_workflow_def ex_node_def ex_registry_def ex_throws_on_def executeWithTimeout_def addLog_def)

lemma run_try_escapes:
  "\<exists>this2. run_try ex_registry (ex_runner ex_failing_first (Some (ex_throws_on EvFailed)))
            = Some (Inl (ErrorObject ''listener failed'' None), this2) \<and> attempted this2 = [''A'']"
proof -
  let ?R = "ex_runner ex_failing_first (Some (ex_throws_on EvFailed))"
  obtain plan where plan: "buildExecutionPlan (workflow ?R) = Some plan" "plan_valid plan"
      "map ctx_nodeId (plan_nodes plan) = [''A'', ''B'']"
    using plan_order_failing_first by (auto elim!: plan_orderD simp: ex_runner_fields)
  obtain ca cb where c: "plan_nodes plan = [ca, cb]" "ctx_nodeId ca = ''A''"
    using plan(3) by (rule plan_nodes_two)
  from run_try_valid [OF plan(1,2), of ex_registry] obtain this0 where
    f: "workflow this0 = ex_failing_first" "onEvent (config this0) = Some (ex_throws_on EvFailed)"
       "attempted this0 = []"
    and rt: "run_try ex_registry ?R =
             Some (case execute_all ex_registry (plan_nodes plan) this0 of
                     (Inl e, this2) \<Rightarrow> (Inl e, this2)
                   | (Inr u, this2) \<Rightarrow>
                       (Inr \<lparr>workflowId = workflow_id (workflow this2),
                             we_executionId = executionId this2,
                             we_status = (if \<exists>r \<in> set (map snd (results this2)). rr_status r = Error
                                          then Error else Success),
                             we_results = map snd (results this2)\<rparr>, this2))"
    by (auto simp: ex_runner_fields)
  obtain x this1 where e: "executeNode ex_registry ''A'' ca this0 = (x, this1)"
    by (cases "executeNode ex_registry ''A'' ca this0")
  have "x = Inl (ErrorObject ''listener failed'' None)" "attempted this1 = [''A'']"
    using executeNode_failing_listener_throws [OF f(1,2), of ca] f(3) by (simp_all add: e)
  then show ?thesis
    using rt c e by simp
qed

text \<open>
  The claim as written fails when the listener throws on the \<^verbatim>\<open>failed\<close> event of a failing
  node: the exception leaves the loop, the second planned node is never attempted, and
  the run ends with the single \<^verbatim>\<open>runner\<close> result.
\<close>

theorem run_stops_after_failure_counterexample:
  "plan_order ex_failing_first = Some (True, [''A'', ''B'']) \<and>
   attempts_of (run ex_registry (ex_runner ex_failing_first (Some (ex_throws_on EvFailed)))) = Some [''A''] \<and>
   result_ids_of (run ex_registry (ex_runner ex_failing_first (Some (ex_throws_on EvFailed)))) = Some [''runner'']"
  using run_try_escapes plan_order_failing_first
  by (auto simp: run_def attempts_of_def result_ids_of_def)

theorem run_attempts_every_node_witness:
  "attempts_of (run ex_registry (ex_runner ex_failing_first None)) = Some [''A'', ''B''] \<and>
   status_of (run ex_registry (ex_runner ex_failing_first None)) \<in> {Some Error, Some Success}"
proof -
  let ?R = "ex_runner ex_failing_first None"
  obtain plan where plan: "buildExecutionPlan (workflow ?R) = Some plan" "plan_valid plan"
      "map ctx_nodeId (plan_nodes plan) = [''A'', ''B'']"
    using plan_order_failing_first by (auto elim!: plan_orderD simp: ex_runner_fields)
  have "\<exists>execution this1. run ex_registry ?R = Some (execution, this1) \<and>
      attempted this1 = attempted ?R @ map ctx_nodeId (plan_nodes plan) \<and>
      (\<forall>ctx \<in> set (plan_nodes plan). \<exists>r \<in> set (we_results execution).
          rr_nodeId r = ctx_nodeId ctx \<and> rr_status r \<in> {Success, Error}) \<and>
      we_status execution =
        (if \<exists>r \<in> set (we_results execution). rr_status r = Error then Error else Success)"
    by (rule run_attempts_every_node [OF plan(1,2)]) (simp add: ex_runner_fields)
  then show ?thesis
    by (auto simp: attempts_of_def status_of_def plan(3) ex_runner_fields split: if_splits)
qed

theorem run_never_throws_witness:
  "\<exists>execution this1.
     run ex_registry (ex_runner ex_failing_first (Some (ex_throws_on EvFailed))) = Some (execution, this1) \<and>
     workflowId execution = ''test-workflow'' \<and> we_status execution = Error \<and>
     we_results execution =
       [\<lparr>rr_nodeId = ''runner'', rr_status = Error, rr_output = None,
         rr_error = Some \<lparr>err_message = ''listener failed'', err_code = Some ''RUNNER_ERROR''\<rparr>\<rparr>]"
proof -
  let ?R = "ex_runner ex_failing_first (Some (ex_throws_on EvFailed))"
  obtain this2 where rt: "run_try ex_registry ?R = Some (Inl (ErrorObject ''listener failed'' None), this2)"
    using run_try_escapes by blast
  from run_never_throws [of ex_registry ?R] rt show ?thesis
    by (auto simp: ex_runner_fields ex_failing_first_def ex_workflow_def)
qed


lemma run_listener_throws_on_succeeded:
  "events_of (run ex_registry (ex_runner ex_single (Some (ex_throws_on EvSucceeded))))
     = Some [(''A'', EvQueued), (''A'', EvRunning), (''A'', EvSucceeded), (''A'', EvFailed)]"
proof -
  let ?R = "ex_runner ex_single (Some (ex_throws_on EvSucceeded))"
  obtain plan where plan: "buildExecutionPlan (workflow ?R) = Some plan" "plan_valid plan"
      "map ctx_nodeId (plan_nodes plan) = [''A'']"
    using plan_order_single by (auto elim!: plan_orderD simp: ex_runner_fields)
  obtain ca where c: "plan_nodes plan = [ca]" "ctx_nodeId ca = ''A''"
    using plan(3) by (rule plan_nodes_one)
  from run_try_valid [OF plan(1,2), of ex_registry] obtain this0 where
    f: "workflow this0 = ex_single" "onEvent (config this0) = Some (ex_throws_on EvSucceeded)"
       "delivered this0 = []"
    and rt: "run_try ex_registry ?R =
             Some (case execute_all ex_registry (plan_nodes plan) this0 of
                     (Inl e, this2) \<Rightarrow> (Inl e, this2)
                   | (Inr u, this2) \<Rightarrow>
                       (Inr \<lparr>workflowId = workflow_id (workflow this2),
                             we_executionId = executionId this2,
                             we_status = (if \<exists>r \<in> set (map snd (results this2)). rr_status r = Error
                                          then Error else Success),
                             we_results = map snd (results this2)\<rparr>, this2))"
    by (auto simp: ex_runner_fields)
  obtain x this1 where e: "executeNode ex_registry ''A'' ca this0 = (x, this1)"
    by (cases "executeNode ex_registry ''A'' ca this0")
  have "x = Inr ()"
    "map (\<lambda>e. (ev_nodeId e, ev_status e)) (delivered this1)
       = [(''A'', EvQueued), (''A'', EvRunning), (''A'', EvSucceeded), (''A'', EvFailed)]"
    using executeNode_succeeded_listener_throws [OF f(1,2), of ca] f(3) by (simp_all add: e)
  then show ?thesis
    using rt c e by (simp add: run_def events_of_def)
qed

lemma executeNode_queued_listener_throws:
  assumes "workflow this = ex_single" "onEvent (config this) = Some (ex_throws_on EvQueued)"
  shows "fst (executeNode ex_registry ''A'' ctx this) = Inr ()"
    and "map (\<lambda>e. (ev_nodeId e, ev_status e)) (delivered (snd (executeNode ex_registry ''A'' ctx this)))
           = map (\<lambda>e. (ev_nodeId e, ev_status e)) (delivered this)
               @ [(''A'', EvQueued), (''A'', EvFailed)]"
  using assms
  by (simp_all add: executeNode_def executeNode_try_def emitEvent_def Let_def ex_single_def
        ex_workflow_def ex_node_def ex_registry_def ex_throws_on_def executeWithTimeout_def addLog_def)

lemma run_listener_throws_on_queued:
  "events_of (run ex_registry (ex_runner ex_single (Some (ex_throws_on EvQueued))))
     = Some [(''A'', EvQueued), (''A'', EvFailed)]"
proof -
  let ?R = "ex_runner ex_single (Some (ex_throws_on EvQueued))"
  obtain plan where plan: "buildExecutionPlan (workflow ?R) = Some plan" "plan_valid plan"
      "map ctx_nodeId (plan_nodes plan) = [''A'']"
    using plan_order_single by (auto elim!: plan_orderD simp: ex_runner_fields)
  obtain ca where c: "plan_nodes plan = [ca]" "ctx_nodeId ca = ''A''"
    using plan(3) by (rule plan_nodes_one)
  from run_try_valid [OF plan(1,2), of ex_registry] obtain this0 where
    f: "workflow this0 = ex_single" "onEvent (config this0) = Some (ex_throws_on EvQueued)"
       "delivered this0 = []"
    and rt: "run_try ex_registry ?R =
             Some (case execute_all ex_registry (plan_nodes plan) this0 of
                     (Inl e, this2) \<Rightarrow> (Inl e, this2)
                   | (Inr u, this2) \<Rightarrow>
                       (Inr \<lparr>workflowId = workflow_id (workflow this2),
                             we_executionId = executionId this2,
                             we_status = (if \<exists>r \<in> set (map snd (results this2)). rr_status r = Error
                                          then Error else Success),
                             we_results = map snd (results this2)\<rparr>, this2))"
    by (auto simp: ex_runner_fields)
  obtain x this1 where e: "executeNode ex_registry ''A'' ca this0 = (x, this1)"
    by (cases "executeNode ex_registry ''A'' ca this0")
  have "x = Inr ()"
    "map (\<lambda>e. (ev_nodeId e, ev_status e)) (delivered this1)
       = [(''A'', EvQueued), (''A'', EvFailed)]"
    using executeNode_queued_listener_throws [OF f(1,2), of ca] f(3) by (simp_all add: e)
  then show ?thesis
    using rt c e by (simp add: run_def events_of_def)
qed

text \<open>
  The claim as written fails when the listener throws on one of those two events, both
  emitted inside the \<^verbatim>\<open>try\<close> block of \<^verbatim>\<open>executeNode\<close>: thrown on \<^verbatim>\<open>succeeded\<close>, the same
  node is then also reported \<^verbatim>\<open>failed\<close>; thrown on \<^verbatim>\<open>queued\<close>, the node is reported
  \<^verbatim>\<open>failed\<close> without ever being reported \<^verbatim>\<open>running\<close>.
\<close>

theorem run_event_order_counterexample:
  "events_of (run ex_registry (ex_runner ex_single (Some (ex_throws_on EvSucceeded))))
     = Some [(''A'', EvQueued), (''A'', EvRunning), (''A'', EvSucceeded), (''A'', EvFailed)] \<and>
   events_of (run ex_registry (ex_runner ex_single (Some (ex_throws_on EvQueued))))
     = Some [(''A'', EvQueued), (''A'', EvFailed)]"
  using run_listener_throws_on_succeeded run_listener_throws_on_queued by simp

theorem run_event_order_witness:
  "\<exists>f g. f \<in> {EvSucceeded, EvFailed} \<and> g \<in> {EvSucceeded, EvFailed} \<and>
     events_of (run ex_registry (ex_runner ex_failing_first (Some (ex_throws_on EvRunning))))
       = Some [(''A'', EvQueued), (''A'', EvRunning), (''A'', f),
               (''B'', EvQueued), (''B'', EvRunning), (''B'', g)] \<and>
     attempts_of (run ex_registry (ex_runner ex_failing_first (Some (ex_throws_on EvRunning))))
       = Some [''A'', ''B'']"
proof -
  let ?R = "ex_runner ex_failing_first (Some (ex_throws_on EvRunning))"
  obtain plan where plan: "buildExecutionPlan (workflow ?R) = Some plan" "plan_valid plan"
      "map ctx_nodeId (plan_nodes plan) = [''A'', ''B'']"
    using plan_order_failing_first by (auto elim!: plan_orderD simp: ex_runner_fields)
  obtain ca cb where c: "plan_nodes plan = [ca, cb]" "ctx_nodeId ca = ''A''" "ctx_nodeId cb = ''B''"
    using plan(3) by (rule plan_nodes_two)
  from run_event_order [of ex_registry ?R] obtain execution this1 where
    run: "run ex_registry ?R = Some (execution, this1)"
    and ord: "\<forall>plan l. buildExecutionPlan (workflow ?R) = Some plan \<and> plan_valid plan \<and>
         onEvent (config ?R) = Some l \<and>
         (\<forall>ev. ev_status ev \<in> {EvQueued, EvSucceeded} \<longrightarrow> l ev = None) \<longrightarrow>
        (\<exists>fs. length fs \<le> length (plan_nodes plan) \<and> set fs \<subseteq> {EvSucceeded, EvFailed} \<and>
           ((\<forall>ev. ev_status ev = EvFailed \<longrightarrow> l ev = None) \<longrightarrow> length fs = length (plan_nodes plan)) \<and>
           attempted this1 = attempted ?R @ map ctx_nodeId (take (length fs) (plan_nodes plan)) \<and>
           map (\<lambda>e. (ev_nodeId e, ev_status e)) (delivered this1)
             = map (\<lambda>e. (ev_nodeId e, ev_status e)) (delivered ?R)
                 @ concat (map (\<lambda>(ctx, f). [(ctx_nodeId ctx, EvQueued), (ctx_nodeId ctx, EvRunning),
                                              (ctx_nodeId ctx, f)]) (zip (plan_nodes plan) fs)))"
    by blast
  have "\<exists>fs. length fs \<le> length (plan_nodes plan) \<and> set fs \<subseteq> {EvSucceeded, EvFailed} \<and>
           ((\<forall>ev. ev_status ev = EvFailed \<longrightarrow> ex_throws_on EvRunning ev = None)
              \<longrightarrow> length fs = length (plan_nodes plan)) \<and>
           attempted this1 = attempted ?R @ map ctx_nodeId (take (length fs) (plan_nodes plan)) \<and>
           map (\<lambda>e. (ev_nodeId e, ev_status e)) (delivered this1)
             = map (\<lambda>e. (ev_nodeId e, ev_status e)) (delivered ?R)
                 @ concat (map (\<lambda>(ctx, f). [(ctx_nodeId ctx, EvQueued), (ctx_nodeId ctx, EvRunning),
                                              (ctx_nodeId ctx, f)]) (zip (plan_nodes plan) fs))"
    using ord [rule_format, of plan "ex_throws_on EvRunning"] plan(1,2)
    by (simp add: ex_runner_fields ex_throws_on_def)
  then obtain fs where fs: "length fs = Suc (Suc 0)" "set fs \<subseteq> {EvSucceeded, EvFailed}"
      "attempted this1 = map ctx_nodeId (take (length fs) [ca, cb])"
      "map (\<lambda>e. (ev_nodeId e, ev_status e)) (delivered this1)
         = concat (map (\<lambda>(ctx, f). [(ctx_nodeId ctx, EvQueued), (ctx_nodeId ctx, EvRunning),
                                      (ctx_nodeId ctx, f)]) (zip [ca, cb] fs))"
    by (auto simp: c(1) ex_runner_fields ex_throws_on_def)
  from fs(1) obtain f g where "fs = [f, g]"
    by (cases fs; cases "tl fs") auto
  with fs run c show ?thesis
    by (auto simp: events_of_def attempts_of_def)
qed


section \<open>Execution ids\<close>

lemma digit_inj:
  assumes "a < 10" "b < 10" "''0123456789'' ! a = ''0123456789'' ! b"
  shows "a = b"
proof -
  have d: "distinct ''0123456789''" by simp
  have "a < length ''0123456789''" "b < length ''0123456789''" using assms by simp_all
  with d assms(3) show ?thesis by (simp only: nth_eq_iff_index_eq)
qed

lemma digit_not_dash: "a < 10 \<Longrightarrow> ''0123456789'' ! a \<noteq> CHR ''-''"
proof -
  assume "a < 10"
  then have "''0123456789'' ! a \<in> set ''0123456789''"
    by (intro nth_mem) simp
  then show ?thesis by auto
qed

lemma show_nat_nonempty: "show_nat n \<noteq> []"
  by (subst show_nat.simps) simp

lemma show_nat_no_dash: "CHR ''-'' \<notin> set (show_nat n)"
proof (induction n rule: show_nat.induct)
  case (1 n)
  show ?case
  proof (cases "n < 10")
    case True
    then show ?thesis using digit_not_dash [of n] by (subst show_nat.simps) auto
  next
    case False
    then show ?thesis
      using 1 digit_not_dash [of "n mod 10"] by (subst show_nat.simps) auto
  qed
qed

lemma show_nat_length_one: "length (show_nat n) = 1 \<longleftrightarrow> n < 10"
proof (cases "n < 10")
  case True
  then show ?thesis by (subst show_nat.simps) simp
next
  case False
  then show ?thesis
    using show_nat_nonempty [of "n div 10"]
    by (subst show_nat.simps) (cases "show_nat (n div 10)"; simp)
qed

lemma show_nat_inj: "show_nat m = show_nat n \<Longrightarrow> m = n"
proof (induction m arbitrary: n rule: show_nat.induct)
  case (1 m)
  show ?case
  proof (cases "m < 10")
    case True
    then have "length (show_nat m) = 1" using show_nat_length_one [of m] by blast
    then have n: "n < 10" using "1.prems" show_nat_length_one [of n] by simp
    have "show_nat m = [''0123456789'' ! m]" "show_nat n = [''0123456789'' ! n]"
      using True n by (subst show_nat.simps, simp)+
    with "1.prems" True n show ?thesis by (auto intro: digit_inj)
  next
    case False
    then have "length (show_nat m) \<noteq> 1" using show_nat_length_one [of m] by blast
    then have n: "\<not> n < 10" using "1.prems" show_nat_length_one [of n] by simp
    have "show_nat m = show_nat (m div 10) @ [''0123456789'' ! (m mod 10)]"
      "show_nat n = show_nat (n div 10) @ [''0123456789'' ! (n mod 10)]"
      using False n by (subst show_nat.simps, simp)+
    with "1.prems" have "show_nat (m div 10) = show_nat (n div 10)"
      "''0123456789'' ! (m mod 10) = ''0123456789'' ! (n mod 10)"
      by simp_all
    then have "m div 10 = n div 10" "m mod 10 = n mod 10"
      using "1.IH" [OF False] digit_inj [of "m mod 10" "n mod 10"] by simp_all
    then show ?thesis by (metis div_mult_mod_eq)
  qed
qed

lemma split_at_dash:
  assumes "xs @ CHR ''-'' # ys = xs' @ CHR ''-'' # ys'" "CHR ''-'' \<notin> set xs" "CHR ''-'' \<notin> set xs'"
  shows "xs = xs' \<and> ys = ys'"
proof -
  have tw: "takeWhile (\<lambda>c. c \<noteq> CHR ''-'') (zs @ CHR ''-'' # ws) = zs"
    if "CHR ''-'' \<notin> set zs" for zs ws
    using that by (induction zs) auto
  have "takeWhile (\<lambda>c. c \<noteq> CHR ''-'') (xs @ CHR ''-'' # ys) = xs"
    by (rule tw) (rule assms(2))
  moreover have "takeWhile (\<lambda>c. c \<noteq> CHR ''-'') (xs' @ CHR ''-'' # ys') = xs'"
    by (rule tw) (rule assms(3))
  ultimately have "xs = xs'" using assms(1) by simp
  with assms(1) show ?thesis by simp
qed

text \<open>The id fixed at construction is \<^verbatim>\<open>exec-\<close>, the clock reading in decimal, a dash, and
  characters 2 to 8 of the random string. It depends on nothing else, so two constructions
  get the same id exactly when they read the same clock value and draw random strings with
  the same seven characters at those positions.\<close>

lemma executionId_eq_iff:
  "executionId (new_WorkflowRunner w1 c1 now1 rnd1) = executionId (new_WorkflowRunner w2 c2 now2 rnd2)
     \<longleftrightarrow> now1 = now2 \<and> take 7 (drop 2 rnd1) = take 7 (drop 2 rnd2)"
proof -
  have "executionId (new_WorkflowRunner w c now rnd) = ''exec-'' @ show_nat now @ CHR ''-'' # take 7 (drop 2 rnd)"
    for w c now rnd
    by (simp add: new_WorkflowRunner_def generateExecutionId_def)
  then show ?thesis
    using split_at_dash [of "show_nat now1" "take 7 (drop 2 rnd1)" "show_nat now2" "take 7 (drop 2 rnd2)"]
      show_nat_no_dash show_nat_inj [of now1 now2]
    by auto
qed

text \<open>
  C9. Two runners constructed for the same workflow are meant to get distinct execution
  ids. The code does not ensure it: constructed under the same clock reading, with random
  strings that agree on the seven characters that are kept (and differ after them), the
  two runners below get the same id.
\<close>

theorem execution_ids_collide:
  "executionId (new_WorkflowRunner ex_single (ex_config None) 1700000000000 ''0.4fzyo82mvyr'')
     = executionId (new_WorkflowRunner ex_single (ex_config None) 1700000000000 ''0.4fzyo82abcd'')"
  by (simp add: new_WorkflowRunner_def generateExecutionId_def)

section \<open>The cycle check is exact\<close>

lemma closed_rtrancl:
  assumes "\<forall>x \<in> B. \<forall>y. (x, y) \<in> r \<longrightarrow> y \<in> B" "(x, y) \<in> r\<^sup>*" "x \<in> B"
  shows "y \<in> B"
  using assms(2,3,1)
proof (induction rule: rtrancl_induct)
  case base
  then show ?case by simp
next
  case (step y z)
  then show ?case by blast
qed

lemma dfs_invI:
  assumes "stk \<subseteq> vis"
    and "\<And>x y. x \<in> vis \<Longrightarrow> x \<notin> stk \<Longrightarrow> (x, y) \<in> adj_rel adj \<Longrightarrow> y \<in> vis \<and> y \<notin> stk"
    and "\<And>x. x \<in> vis \<Longrightarrow> x \<notin> stk \<Longrightarrow> (x, x) \<notin> (adj_rel adj)\<^sup>+"
  shows "dfs_inv adj (vis, stk)"
  unfolding dfs_inv_def fst_conv snd_conv using assms by blast

lemma dfs_invD:
  assumes "dfs_inv adj (vis, stk)"
  shows "stk \<subseteq> vis"
    and "\<And>x y. x \<in> vis \<Longrightarrow> x \<notin> stk \<Longrightarrow> (x, y) \<in> adj_rel adj \<Longrightarrow> y \<in> vis \<and> y \<notin> stk"
    and "\<And>x. x \<in> vis \<Longrightarrow> x \<notin> stk \<Longrightarrow> (x, x) \<notin> (adj_rel adj)\<^sup>+"
  using assms unfolding dfs_inv_def fst_conv snd_conv by blast+

lemma dfs_inv_finish:
  assumes inv: "dfs_inv adj (v', insert n stk)" and n: "n \<notin> stk" "n \<in> v'"
    and nb: "set (get_or_empty adj n) \<subseteq> v' - insert n stk"
  shows "dfs_inv adj (v', stk)"
proof (rule dfs_invI)
  note D = dfs_invD [OF inv]
  let ?B = "v' - insert n stk"
  have closed: "\<forall>x \<in> ?B. \<forall>y. (x, y) \<in> adj_rel adj \<longrightarrow> y \<in> ?B"
    using D(2) by blast
  have n_succ: "y \<in> ?B" if "(n, y) \<in> adj_rel adj" for y
    using nb that by (auto simp: adj_rel_def)
  show "stk \<subseteq> v'" using D(1) by blast
  show "y \<in> v' \<and> y \<notin> stk" if "x \<in> v'" "x \<notin> stk" "(x, y) \<in> adj_rel adj" for x y
  proof (cases "x = n")
    case True
    with n_succ that(3) show ?thesis by blast
  next
    case False
    with D(2) [of x y] that show ?thesis by blast
  qed
  show "(x, x) \<notin> (adj_rel adj)\<^sup>+" if "x \<in> v'" "x \<notin> stk" for x
  proof (cases "x = n")
    case False
    with D(3) [of x] that show ?thesis by blast
  next
    case True
    show ?thesis
    proof
      assume "(x, x) \<in> (adj_rel adj)\<^sup>+"
      then obtain m where m: "(n, m) \<in> adj_rel adj" "(m, n) \<in> (adj_rel adj)\<^sup>*"
        unfolding True by (blast dest: tranclD)
      from n_succ [OF m(1)] have "m \<in> ?B" .
      from closed_rtrancl [OF closed m(2) this] show False by blast
    qed
  qed
qed

lemma hasCycle_correct:
  "hasCycleUtil k adj n s = Some (b, s') \<Longrightarrow> dfs_inv adj s
     \<Longrightarrow> \<forall>x \<in> snd s. (x, n) \<in> (adj_rel adj)\<^sup>+
     \<Longrightarrow> (if b then \<exists>c. (n, c) \<in> (adj_rel adj)\<^sup>* \<and> (c, c) \<in> (adj_rel adj)\<^sup>+
          else dfs_inv adj s' \<and> snd s' = snd s \<and> fst s \<subseteq> fst s' \<and> n \<in> fst s' - snd s)"
    "hasCycleLoop k adj ns s = Some (b, s') \<Longrightarrow> dfs_inv adj s
     \<Longrightarrow> \<forall>m \<in> set ns. \<forall>x \<in> snd s. (x, m) \<in> (adj_rel adj)\<^sup>+
     \<Longrightarrow> (if b then \<exists>m \<in> set ns. \<exists>c. (m, c) \<in> (adj_rel adj)\<^sup>* \<and> (c, c) \<in> (adj_rel adj)\<^sup>+
          else dfs_inv adj s' \<and> snd s' = snd s \<and> fst s \<subseteq> fst s' \<and> set ns \<subseteq> fst s' - snd s)"
proof (induction k adj n s and k adj ns s arbitrary: b s' and b s' rule: hasCycleUtil_hasCycleLoop.induct)
  case (1 adjacency nodeId s)
  then show ?case by simp
next
  case (2 k adjacency nodeId visited recursionStack)
  let ?E = "adj_rel adjacency"
  show ?case
  proof (cases "nodeId \<in> recursionStack")
    case True
    then have b: "b" using "2.prems"(1) by simp
    have "(nodeId, nodeId) \<in> ?E\<^sup>+" using "2.prems"(3) True by simp
    then have "\<exists>c. (nodeId, c) \<in> ?E\<^sup>* \<and> (c, c) \<in> ?E\<^sup>+" by blast
    with b show ?thesis by simp
  next
    case notstk: False
    show ?thesis
    proof (cases "nodeId \<in> visited")
      case True
      then have "b = False" "s' = (visited, recursionStack)"
        using "2.prems"(1) notstk by simp_all
      with True notstk "2.prems"(2) show ?thesis by simp
    next
      case False
      let ?s1 = "(insert nodeId visited, insert nodeId recursionStack)"
      obtain b1 s1' where loop: "hasCycleLoop k adjacency (get_or_empty adjacency nodeId) ?s1 = Some (b1, s1')"
        using "2.prems"(1) notstk False
        by (cases "hasCycleLoop k adjacency (get_or_empty adjacency nodeId) ?s1") auto
      have inv1: "dfs_inv adjacency ?s1"
      proof -
        have "insert nodeId visited - insert nodeId recursionStack = visited - recursionStack"
          using False by auto
        with "2.prems"(2) False show ?thesis
          unfolding dfs_inv_def fst_conv snd_conv by blast
      qed
      have path1: "\<forall>m \<in> set (get_or_empty adjacency nodeId). \<forall>x \<in> snd ?s1. (x, m) \<in> ?E\<^sup>+"
      proof (intro ballI)
        fix m x assume m: "m \<in> set (get_or_empty adjacency nodeId)" and x: "x \<in> snd ?s1"
        have e: "(nodeId, m) \<in> ?E" using m by (simp add: adj_rel_def)
        show "(x, m) \<in> ?E\<^sup>+"
        proof (cases "x = nodeId")
          case True
          with e show ?thesis by auto
        next
          case False
          with x "2.prems"(3) have "(x, nodeId) \<in> ?E\<^sup>+" by simp
          from this e show ?thesis by (rule trancl_into_trancl)
        qed
      qed
      note IH = "2.IH" [OF notstk False loop inv1 path1]
      show ?thesis
      proof (cases b1)
        case True
        with IH obtain m c where "m \<in> set (get_or_empty adjacency nodeId)"
            "(m, c) \<in> ?E\<^sup>*" "(c, c) \<in> ?E\<^sup>+"
          by (simp only: if_True) blast
        moreover from this(1) have "(nodeId, m) \<in> ?E" by (simp add: adj_rel_def)
        ultimately have "\<exists>c. (nodeId, c) \<in> ?E\<^sup>* \<and> (c, c) \<in> ?E\<^sup>+"
          by (meson converse_rtrancl_into_rtrancl)
        moreover have "b" using "2.prems"(1) notstk False loop True by simp
        ultimately show ?thesis by simp
      next
        case b1: False
        obtain v' r' where s1': "s1' = (v', r')" by (cases s1')
        from IH b1 s1' have post: "dfs_inv adjacency (v', r')" "r' = insert nodeId recursionStack"
            "insert nodeId visited \<subseteq> v'"
            "set (get_or_empty adjacency nodeId) \<subseteq> v' - insert nodeId recursionStack"
          by auto
        have res: "b = False" "s' = (v', recursionStack)"
          using "2.prems"(1) notstk False loop b1 s1' post(2) by simp_all
        have "dfs_inv adjacency (v', recursionStack)"
        proof (rule dfs_inv_finish [of adjacency v' nodeId])
          show "dfs_inv adjacency (v', insert nodeId recursionStack)" using post(1,2) by simp
          show "nodeId \<notin> recursionStack" by (rule notstk)
          show "nodeId \<in> v'" using post(3) by blast
          show "set (get_or_empty adjacency nodeId) \<subseteq> v' - insert nodeId recursionStack"
            by (rule post(4))
        qed
        moreover have "visited \<subseteq> v'" "nodeId \<in> v' - recursionStack"
          using post(3) notstk by blast+
        ultimately show ?thesis using res by simp
      qed
    qed
  qed
next
  case (3 k adjacency s)
  then show ?case by simp
next
  case (4 k adjacency neighbor rest s)
  obtain b1 s1 where u: "hasCycleUtil k adjacency neighbor s = Some (b1, s1)"
    using "4.prems"(1) by (cases "hasCycleUtil k adjacency neighbor s") auto
  have p1: "\<forall>x \<in> snd s. (x, neighbor) \<in> (adj_rel adjacency)\<^sup>+"
    using "4.prems"(3) by simp
  note IH1 = "4.IH"(1) [OF u "4.prems"(2) p1]
  show ?case
  proof (cases b1)
    case True
    then have "b" using u "4.prems"(1) by simp
    moreover have "\<exists>c. (neighbor, c) \<in> (adj_rel adjacency)\<^sup>* \<and> (c, c) \<in> (adj_rel adjacency)\<^sup>+"
      using IH1 True by simp
    ultimately show ?thesis by auto
  next
    case False
    with IH1 have post1: "dfs_inv adjacency s1" "snd s1 = snd s" "fst s \<subseteq> fst s1"
        "neighbor \<in> fst s1 - snd s"
      by simp_all
    have loop: "hasCycleLoop k adjacency rest s1 = Some (b, s')"
      using "4.prems"(1) u False by simp
    have p2: "\<forall>m \<in> set rest. \<forall>x \<in> snd s1. (x, m) \<in> (adj_rel adjacency)\<^sup>+"
      using "4.prems"(3) post1(2) by simp
    have b1F: "b1 = False" using False by simp
    note IH2 = "4.IH"(2) [OF u refl b1F loop post1(1) p2]
    show ?thesis
    proof (cases b)
      case True
      with IH2 have "\<exists>m \<in> set rest. \<exists>c. (m, c) \<in> (adj_rel adjacency)\<^sup>* \<and> (c, c) \<in> (adj_rel adjacency)\<^sup>+"
        by simp
      with True show ?thesis by auto
    next
      case b: False
      with IH2 have "dfs_inv adjacency s'" "snd s' = snd s1" "fst s1 \<subseteq> fst s'"
          "set rest \<subseteq> fst s' - snd s1"
        by simp_all
      with b post1 show ?thesis by auto
    qed
  qed
qed

lemma adj_rel_buildAdjacencyList:
  "adj_rel (buildAdjacencyList nodes edges) = edge_rel edges"
  unfolding adj_rel_def edge_rel_def neighbours_buildAdjacencyList by auto

lemma detectCycle_correct:
  "detectCycle nodes edges = Some (reachable_cycle nodes edges)"
proof -
  let ?adj = "buildAdjacencyList nodes edges"
  let ?E = "edge_rel edges"
  obtain b where b: "detectCycle nodes edges = Some b"
    using detectCycle_total by blast
  then obtain s' where run:
      "hasCycleLoop (dfs_depth nodes edges) ?adj (map node_id nodes) ({}, {}) = Some (b, s')"
    by (auto simp: detectCycle_def split: option.splits)
  have inv0: "dfs_inv ?adj ({}, {})"
    by (rule dfs_invI) simp_all
  have path0: "\<forall>m \<in> set (map node_id nodes). \<forall>x \<in> snd ({}, {}). (x, m) \<in> (adj_rel ?adj)\<^sup>+"
    by simp
  note post = hasCycle_correct(2) [OF run inv0 path0, unfolded adj_rel_buildAdjacencyList]
  have "b = reachable_cycle nodes edges"
  proof (cases b)
    case True
    with post have "\<exists>m \<in> set (map node_id nodes). \<exists>c. (m, c) \<in> ?E\<^sup>* \<and> (c, c) \<in> ?E\<^sup>+"
      by simp
    then have "reachable_cycle nodes edges"
      unfolding reachable_cycle_def by simp
    with True show ?thesis by simp
  next
    case False
    obtain vis stk where s': "s' = (vis, stk)" by (cases s')
    from post False s' have inv: "dfs_inv ?adj (vis, stk)" and stk: "stk = {}"
        and ids: "set (map node_id nodes) \<subseteq> vis"
      by auto
    note D = dfs_invD [OF inv, unfolded adj_rel_buildAdjacencyList stk]
    have closed: "\<forall>x \<in> vis. \<forall>y. (x, y) \<in> ?E \<longrightarrow> y \<in> vis"
      using D(2) by blast
    have "\<not> reachable_cycle nodes edges"
    proof
      assume "reachable_cycle nodes edges"
      then obtain m c where m: "m \<in> node_id ` set nodes" and mc: "(m, c) \<in> ?E\<^sup>*"
          and cc: "(c, c) \<in> ?E\<^sup>+"
        unfolding reachable_cycle_def by blast
      from m ids have "m \<in> vis" by auto
      from closed_rtrancl [OF closed mc this] have "c \<in> vis" .
      with D(3) [of c] cc show False by simp
    qed
    with False show ?thesis by simp
  qed
  with b show ?thesis by simp
qed

lemma reachable_cycle_through_node:
  assumes "c \<in> node_id ` set nodes" "(c, c) \<in> (edge_rel edges)\<^sup>+"
  shows "reachable_cycle nodes edges"
  unfolding reachable_cycle_def using assms by blast

lemma reachable_cycle_sources_listed:
  assumes "source ` set edges \<subseteq> node_id ` set nodes"
  shows "reachable_cycle nodes edges \<longleftrightarrow> \<not> acyclic (edge_rel edges)"
proof
  assume "reachable_cycle nodes edges"
  then show "\<not> acyclic (edge_rel edges)"
    unfolding reachable_cycle_def acyclic_def by blast
next
  assume "\<not> acyclic (edge_rel edges)"
  then obtain c where c: "(c, c) \<in> (edge_rel edges)\<^sup>+"
    unfolding acyclic_def by blast
  then obtain y where "(c, y) \<in> edge_rel edges"
    by (blast dest: tranclD)
  then have "c \<in> source ` set edges"
    unfolding edge_rel_def by force
  with assms have "c \<in> node_id ` set nodes" by blast
  from this c show "reachable_cycle nodes edges"
    by (rule reachable_cycle_through_node)
qed

section \<open>Cyclic workflows are rejected\<close>

text \<open>What follows from the cycle check answering true: the plan is the invalid one with the
  cycle error, and \<^verbatim>\<open>run\<close> returns at once with the runner untouched.\<close>

lemma run_reachable_cycle:
  assumes "reachable_cycle (wf_nodes (workflow this)) (wf_edges (workflow this))"
  shows "detectCycle (wf_nodes (workflow this)) (wf_edges (workflow this)) = Some True \<and>
         (\<exists>c. buildExecutionPlan (workflow this) =
                 Some \<lparr>plan_nodes = [], plan_valid = False,
                       plan_errors = [''Workflow contains a cycle: '' @ c]\<rparr>) \<and>
         (\<exists>execution. run registry this = Some (execution, this) \<and> we_status execution = Error) \<and>
         invocations_of (run registry this) = Some (invoked this)"
proof -
  have d: "detectCycle (wf_nodes (workflow this)) (wf_edges (workflow this)) = Some True"
    using assms by (simp add: detectCycle_correct)
  from buildExecutionPlan_cyclic [OF d] obtain c where
    plan: "buildExecutionPlan (workflow this) =
             Some \<lparr>plan_nodes = [], plan_valid = False,
                   plan_errors = [''Workflow contains a cycle: '' @ c]\<rparr>"
    by blast
  have "run_try registry this =
     Some (Inr \<lparr>workflowId = workflow_id (workflow this), we_executionId = executionId this,
                we_status = Error,
                we_results = map (\<lambda>(index, error). synthetic_plan_error index error)
                  (enumerate 0 (plan_errors \<lparr>plan_nodes = [], plan_valid = False,
                       plan_errors = [''Workflow contains a cycle: '' @ c]\<rparr>))\<rparr>, this)"
    by (rule run_try_invalid [OF plan]) simp
  then have r: "\<exists>execution. run registry this = Some (execution, this) \<and> we_status execution = Error"
    by (simp add: run_def)
  then have "invocations_of (run registry this) = Some (invoked this)"
    by (auto simp: invocations_of_def)
  with d plan r show ?thesis by blast
qed

text \<open>
  C2. For every workflow graph (every edge leaves a listed node) that contains a cycle, a
  single self-loop edge included, \<^verbatim>\<open>detectCycle\<close> returns true, \<^verbatim>\<open>buildExecutionPlan\<close>
  returns an invalid plan with no nodes and the single error
  \<^verbatim>\<open>Workflow contains a cycle: ...\<close>, and \<^verbatim>\<open>run\<close> returns an execution of overall status
  \<^verbatim>\<open>error\<close> and leaves the runner as it was: no node executor is invoked.
\<close>

theorem cyclic_graph_rejected:
  assumes "source ` set (wf_edges (workflow this)) \<subseteq> node_id ` set (wf_nodes (workflow this))"
    and "\<not> acyclic (edge_rel (wf_edges (workflow this)))"
  shows "detectCycle (wf_nodes (workflow this)) (wf_edges (workflow this)) = Some True \<and>
         (\<exists>c. buildExecutionPlan (workflow this) =
                 Some \<lparr>plan_nodes = [], plan_valid = False,
                       plan_errors = [''Workflow contains a cycle: '' @ c]\<rparr>) \<and>
         (\<exists>execution. run registry this = Some (execution, this) \<and> we_status execution = Error) \<and>
         invocations_of (run registry this) = Some (invoked this)"
proof (rule run_reachable_cycle)
  show "reachable_cycle (wf_nodes (workflow this)) (wf_edges (workflow this))"
    using assms by (simp add: reachable_cycle_sources_listed)
qed

theorem cyclic_graph_rejected_witness:
  "detectCycle (wf_nodes ex_self_loop) (wf_edges ex_self_loop) = Some True \<and>
   plan_order ex_self_loop = Some (False, []) \<and>
   status_of (run ex_registry (ex_runner ex_self_loop None)) = Some Error \<and>
   invocations_of (run ex_registry (ex_runner ex_self_loop None)) = Some []"
proof -
  have "(''A'', ''A'') \<in> edge_rel (wf_edges ex_self_loop)"
    by (simp add: edge_rel_def ex_self_loop_def ex_workflow_def ex_edge_def)
  then have "(''A'', ''A'') \<in> (edge_rel (wf_edges ex_self_loop))\<^sup>+" ..
  then have "\<not> acyclic (edge_rel (wf_edges ex_self_loop))"
    unfolding acyclic_def by blast
  moreover have "source ` set (wf_edges ex_self_loop) \<subseteq> node_id ` set (wf_nodes ex_self_loop)"
    by (simp add: ex_self_loop_def ex_workflow_def ex_node_def ex_edge_def)
  ultimately show ?thesis
    using cyclic_graph_rejected [of "ex_runner ex_self_loop None" ex_registry]
    by (auto simp: ex_runner_fields plan_order_def status_of_def)
qed

section \<open>The queue-based sort\<close>

lemma get_or_zero_update:
  "get_or_zero (AList.update k v m) t = (if t = k then v else get_or_zero m t)"
  by (simp add: get_or_zero_def update_conv')

lemma relax_degree:
  "get_or_zero (fst (relax x s)) t = (if t = x then get_or_zero (fst s) x - 1 else get_or_zero (fst s) t)"
  by (simp add: relax_def Let_def get_or_zero_update)

lemma relax_queue:
  "snd (relax x s) = (if get_or_zero (fst s) x = 1 then snd s @ [x] else snd s)"
  by (simp add: relax_def Let_def)

lemma fold_relax_degree:
  "get_or_zero (fst (fold relax xs s)) t = get_or_zero (fst s) t - int (count_list xs t)"
proof (induction xs arbitrary: s)
  case Nil
  then show ?case by simp
next
  case (Cons x xs)
  show ?case
    by (simp add: Cons.IH relax_degree)
qed

lemma fold_relax_queue:
  "\<exists>new. snd (fold relax xs s) = snd s @ new \<and> distinct new \<and>
     set new = {t \<in> set xs. 0 < get_or_zero (fst s) t \<and> get_or_zero (fst s) t \<le> int (count_list xs t)}"
proof (induction xs arbitrary: s)
  case Nil
  then show ?case by simp
next
  case (Cons x xs)
  let ?d = "\<lambda>t. get_or_zero (fst s) t"
  let ?d1 = "\<lambda>t. get_or_zero (fst (relax x s)) t"
  obtain new' where new': "snd (fold relax xs (relax x s)) = snd (relax x s) @ new'" "distinct new'"
      "set new' = {t \<in> set xs. 0 < ?d1 t \<and> ?d1 t \<le> int (count_list xs t)}"
    using Cons.IH [of "relax x s"] by blast
  have d1: "?d1 t = (if t = x then ?d x - 1 else ?d t)" for t
    by (rule relax_degree)
  have cnt: "0 < count_list xs t \<Longrightarrow> t \<in> set xs" for t
    by (metis count_notin less_numeral_extra(3))
  show ?case
  proof (cases "?d x = 1")
    case True
    have "x \<notin> set new'"
      using new'(3) True by (simp add: d1)
    moreover have "set (x # new') = {t \<in> set (x # xs). 0 < ?d t \<and> ?d t \<le> int (count_list (x # xs) t)}"
      using new'(3) True by (auto simp: d1)
    ultimately show ?thesis
      using new'(1,2) True by (intro exI [of _ "x # new'"]) (simp add: relax_queue)
  next
    case False
    have "set new' = {t \<in> set (x # xs). 0 < ?d t \<and> ?d t \<le> int (count_list (x # xs) t)}"
    proof (intro set_eqI iffI)
      fix t assume "t \<in> set new'"
      then show "t \<in> {t \<in> set (x # xs). 0 < ?d t \<and> ?d t \<le> int (count_list (x # xs) t)}"
        using new'(3) by (auto simp: d1 split: if_splits)
    next
      fix t assume t: "t \<in> {t \<in> set (x # xs). 0 < ?d t \<and> ?d t \<le> int (count_list (x # xs) t)}"
      show "t \<in> set new'"
      proof (cases "t = x")
        case True
        with t False have "0 < ?d x - 1" "?d x - 1 \<le> int (count_list xs x)" by auto
        then have "0 < count_list xs x" by linarith
        then have "x \<in> set xs" by (rule cnt)
        with \<open>0 < ?d x - 1\<close> \<open>?d x - 1 \<le> int (count_list xs x)\<close> True show ?thesis
          using new'(3) by (simp add: d1)
      next
        case False
        with t show ?thesis using new'(3) by (auto simp: d1)
      qed
    qed
    then show ?thesis
      using new'(1,2) False by (intro exI [of _ new']) (simp add: relax_queue)
  qed
qed

lemma pending_split:
  "u \<notin> D \<Longrightarrow> pending edges D t = pending edges (insert u D) t + count_list (successors edges u) t"
  by (induction edges) (auto simp: pending_def successors_def)

lemma pending_zero_iff:
  "pending edges D t = 0 \<longleftrightarrow> (\<forall>e \<in> set edges. target e = t \<longrightarrow> source e \<in> D)"
  by (auto simp: pending_def filter_empty_conv)

lemma count_successors_pos:
  "0 < count_list (successors edges u) t \<longleftrightarrow> (\<exists>e \<in> set edges. source e = u \<and> target e = t)"
proof -
  have "0 < count_list xs t \<longleftrightarrow> t \<in> set xs" for xs :: "string list"
    by (metis count_notin count_list_0_iff gr0I less_numeral_extra(3))
  then show ?thesis
    by (auto simp: successors_def)
qed

lemma kahn_step:
  assumes inv: "kahn_inv nodes edges D (u # q) deg"
  shows "kahn_inv nodes edges (D @ [u]) (snd (fold relax (successors edges u) (deg, q)))
           (fst (fold relax (successors edges u) (deg, q)))"
proof -
  let ?xs = "successors edges u"
  let ?s = "fold relax ?xs (deg, q)"
  from inv have dist: "distinct (D @ u # q)"
    and deg: "\<And>t. get_or_zero deg t = int (pending edges (set D) t)"
    and mem: "\<And>t. t \<in> set (D @ u # q) \<longleftrightarrow> t \<in> known_ids nodes edges \<and> pending edges (set D) t = 0"
    and ord: "\<And>e. e \<in> set edges \<Longrightarrow> target e \<in> set D \<Longrightarrow> \<exists>D1 D2. D = D1 @ target e # D2 \<and> source e \<in> set D1"
    and pre: "\<exists>ys. D @ u # q = roots nodes edges @ ys"
    unfolding kahn_inv_def by blast+
  have u: "u \<notin> set D" using dist by simp
  note split = pending_split [OF u, of edges]
  have set': "set (D @ [u]) = insert u (set D)" by simp
  obtain new where new: "snd ?s = q @ new" "distinct new"
      "set new = {t \<in> set ?xs. 0 < get_or_zero deg t \<and> get_or_zero deg t \<le> int (count_list ?xs t)}"
    using fold_relax_queue [of ?xs "(deg, q)"] by auto
  have new_iff: "t \<in> set new \<longleftrightarrow> 0 < count_list ?xs t \<and> pending edges (insert u (set D)) t = 0" for t
  proof -
    have "t \<in> set ?xs \<longleftrightarrow> 0 < count_list ?xs t"
      by (metis count_notin count_list_0_iff gr0I less_numeral_extra(3))
    then show ?thesis
      unfolding new(3) using split [of t] by (auto simp: deg)
  qed
  have deg': "get_or_zero (fst ?s) t = int (pending edges (set (D @ [u])) t)" for t
    unfolding set' using fold_relax_degree [of ?xs "(deg, q)" t] split [of t] by (simp add: deg)
  have fresh: "t \<notin> set (D @ u # q)" if "t \<in> set new" for t
  proof
    assume "t \<in> set (D @ u # q)"
    then have "pending edges (set D) t = 0" using mem by blast
    moreover have "0 < count_list ?xs t" using that new_iff by blast
    ultimately show False using split [of t] by simp
  qed
  have dist': "distinct ((D @ [u]) @ snd ?s)"
    using dist new(2) fresh unfolding new(1) by auto
  have mem': "t \<in> set ((D @ [u]) @ snd ?s) \<longleftrightarrow>
                t \<in> known_ids nodes edges \<and> pending edges (set (D @ [u])) t = 0" for t
  proof
    assume t: "t \<in> set ((D @ [u]) @ snd ?s)"
    show "t \<in> known_ids nodes edges \<and> pending edges (set (D @ [u])) t = 0"
    proof (cases "t \<in> set new")
      case True
      then have "0 < count_list ?xs t" "pending edges (insert u (set D)) t = 0"
        using new_iff by blast+
      moreover from this(1) have "t \<in> target ` set edges"
        unfolding count_successors_pos by blast
      ultimately show ?thesis unfolding set' by (simp add: known_ids_def)
    next
      case False
      with t have "t \<in> set (D @ u # q)" unfolding new(1) by auto
      then have "t \<in> known_ids nodes edges" "pending edges (set D) t = 0" using mem by blast+
      then show ?thesis unfolding set' using split [of t] by simp
    qed
  next
    assume t: "t \<in> known_ids nodes edges \<and> pending edges (set (D @ [u])) t = 0"
    show "t \<in> set ((D @ [u]) @ snd ?s)"
    proof (cases "0 < count_list ?xs t")
      case True
      with t have "t \<in> set new" unfolding new_iff set' by simp
      then show ?thesis unfolding new(1) by simp
    next
      case False
      with t have "pending edges (set D) t = 0" unfolding set' using split [of t] by simp
      with t have "t \<in> set (D @ u # q)" using mem by blast
      then show ?thesis unfolding new(1) by auto
    qed
  qed
  have ord': "\<exists>D1 D2. D @ [u] = D1 @ target e # D2 \<and> source e \<in> set D1"
    if e: "e \<in> set edges" "target e \<in> set (D @ [u])" for e
  proof (cases "target e \<in> set D")
    case True
    from ord [OF e(1) True] obtain D1 D2 where "D = D1 @ target e # D2" "source e \<in> set D1" by blast
    then have "D @ [u] = D1 @ target e # (D2 @ [u])" "source e \<in> set D1" by simp_all
    then show ?thesis by blast
  next
    case False
    with e(2) have t: "target e = u" by simp
    have "u \<in> set (D @ u # q)" by simp
    then have "pending edges (set D) u = 0" using mem by blast
    with e(1) t have "source e \<in> set D" unfolding pending_zero_iff by blast
    with t have "D @ [u] = D @ target e # []" "source e \<in> set D" by simp_all
    then show ?thesis by blast
  qed
  have pre': "\<exists>ys. (D @ [u]) @ snd ?s = roots nodes edges @ ys"
  proof -
    from pre obtain ys where "D @ u # q = roots nodes edges @ ys" by blast
    then have "(D @ [u]) @ snd ?s = roots nodes edges @ (ys @ new)" unfolding new(1) by simp
    then show ?thesis by blast
  qed
  show ?thesis
    unfolding kahn_inv_def using dist' deg' mem' ord' pre' by blast
qed

lemma fold_relax_append:
  "fold relax (xs1 @ t # xs2) s = fold relax xs2 (relax t (fold relax xs1 s))"
  by simp

lemma fold_relax_order:
  assumes d1: "get_or_zero deg t1 = 1" and d2: "get_or_zero deg t2 = 1"
    and n1: "t1 \<notin> set xs1" and n2: "t2 \<notin> set xs1" and ne: "t1 \<noteq> t2" and t2: "t2 \<in> set xs2"
  shows "\<exists>a b. snd (fold relax (xs1 @ t1 # xs2) (deg, q)) = q @ a @ t1 # b \<and> t2 \<in> set b"
proof -
  let ?s1 = "fold relax xs1 (deg, q)"
  obtain a where a: "snd ?s1 = q @ a"
    using fold_relax_queue [of xs1 "(deg, q)"] by auto
  have d1': "get_or_zero (fst ?s1) t1 = 1"
    using fold_relax_degree [of xs1 "(deg, q)" t1] n1 d1 by simp
  have d2': "get_or_zero (fst ?s1) t2 = 1"
    using fold_relax_degree [of xs1 "(deg, q)" t2] n2 d2 by simp
  let ?s2 = "relax t1 ?s1"
  have q2: "snd ?s2 = q @ a @ [t1]"
    by (simp add: relax_queue d1' a)
  have d2'': "get_or_zero (fst ?s2) t2 = 1"
    using ne by (simp add: relax_degree d2')
  obtain b where b: "snd (fold relax xs2 ?s2) = snd ?s2 @ b"
      "set b = {t \<in> set xs2. 0 < get_or_zero (fst ?s2) t \<and> get_or_zero (fst ?s2) t \<le> int (count_list xs2 t)}"
    using fold_relax_queue [of xs2 ?s2] by auto
  have "0 < count_list xs2 t2"
    using t2 by (metis count_list_0_iff gr0I)
  then have "t2 \<in> set b"
    unfolding b(2) using t2 d2'' by simp
  moreover have "snd (fold relax (xs1 @ t1 # xs2) (deg, q)) = q @ a @ t1 # b"
    unfolding fold_relax_append b(1) q2 by simp
  ultimately show ?thesis by blast
qed

lemma in_degree_append:
  "in_degree (es1 @ es2) t = in_degree es1 t + in_degree es2 t"
  "in_degree (e # es) t = (if target e = t then 1 else 0) + in_degree es t"
  by (simp_all add: in_degree_def)

lemma in_degree_zero: "in_degree es t = 0 \<longleftrightarrow> (\<forall>e \<in> set es. target e \<noteq> t)"
  by (auto simp: in_degree_def filter_empty_conv)

lemma successors_append:
  "successors (es1 @ es2) u = successors es1 u @ successors es2 u"
  "successors (e # es) u = (if source e = u then [target e] else []) @ successors es u"
  by (simp_all add: successors_def)

lemma in_successors: "t \<in> set (successors es u) \<longleftrightarrow> (\<exists>e \<in> set es. source e = u \<and> target e = t)"
  by (auto simp: successors_def)

lemma pending_le_in_degree: "pending edges D t \<le> in_degree edges t"
proof -
  have "length (filter (\<lambda>e. target e = t \<and> source e \<notin> D) edges) \<le> length (filter (\<lambda>e. target e = t) edges)"
    by (induction edges) auto
  then show ?thesis by (simp add: pending_def in_degree_def)
qed

lemma kahn_step_branch:
  assumes inv: "kahn_inv nodes edges D (u # q) deg"
    and br: "branch_order edges (D @ u # q)"
  shows "branch_order edges ((D @ [u]) @ snd (fold relax (successors edges u) (deg, q)))"
  unfolding branch_order_def
proof (intro allI impI, elim conjE)
  fix es1 e1 es2 e2 es3
  let ?xs = "successors edges u"
  let ?L' = "(D @ [u]) @ snd (fold relax ?xs (deg, q))"
  assume edges: "edges = es1 @ e1 # es2 @ e2 # es3" and same: "source e1 = source e2"
    and i1: "in_degree edges (target e1) = 1" and i2: "in_degree edges (target e2) = 1"
    and t2: "target e2 \<in> set ?L'"
  from inv have dist: "distinct (D @ u # q)"
    and deg: "\<And>t. get_or_zero deg t = int (pending edges (set D) t)"
    and mem: "\<And>t. t \<in> set (D @ u # q) \<longleftrightarrow> t \<in> known_ids nodes edges \<and> pending edges (set D) t = 0"
    unfolding kahn_inv_def by blast+
  have u: "u \<notin> set D" using dist by simp
  obtain new where new: "snd (fold relax ?xs (deg, q)) = q @ new"
      "set new = {t \<in> set ?xs. 0 < get_or_zero deg t \<and> get_or_zero deg t \<le> int (count_list ?xs t)}"
    using fold_relax_queue [of ?xs "(deg, q)"] by auto
  have L': "?L' = (D @ u # q) @ new" unfolding new(1) by simp
  show "\<exists>L1 L2. ?L' = L1 @ target e1 # L2 \<and> target e2 \<in> set L2"
  proof (cases "target e2 \<in> set (D @ u # q)")
    case True
    with br edges same i1 i2 obtain L1 L2 where "D @ u # q = L1 @ target e1 # L2" "target e2 \<in> set L2"
      unfolding branch_order_def by blast
    then have "?L' = L1 @ target e1 # (L2 @ new)" "target e2 \<in> set (L2 @ new)"
      unfolding L' by simp_all
    then show ?thesis by blast
  next
    case False
    with t2 have "target e2 \<in> set new" unfolding L' by simp
    then have "target e2 \<in> set ?xs" unfolding new(2) by simp
    then obtain e where e: "e \<in> set edges" "source e = u" "target e = target e2"
      unfolding in_successors by blast
    have z1: "in_degree es1 (target e2) = 0" "in_degree es2 (target e2) = 0"
        "in_degree es3 (target e2) = 0" "target e1 \<noteq> target e2"
      using i2 unfolding edges by (auto simp: in_degree_append split: if_splits)
    have z2: "in_degree es1 (target e1) = 0" "in_degree es2 (target e1) = 0"
        "in_degree es3 (target e1) = 0"
      using i1 unfolding edges by (auto simp: in_degree_append split: if_splits)
    have "e = e2"
      using e(1,3) z1 unfolding edges in_degree_zero by auto
    with e(2) same have s: "source e1 = u" "source e2 = u" by simp_all
    have p1: "pending edges (set D) (target e1) = 1"
    proof -
      have "e1 \<in> set (filter (\<lambda>e. target e = target e1 \<and> source e \<notin> set D) edges)"
        using s(1) u unfolding edges by simp
      then have "0 < pending edges (set D) (target e1)"
        unfolding pending_def by (metis length_pos_if_in_set)
      with pending_le_in_degree [of edges "set D" "target e1"] i1 show ?thesis by simp
    qed
    have p2: "pending edges (set D) (target e2) = 1"
    proof -
      have "e2 \<in> set (filter (\<lambda>e. target e = target e2 \<and> source e \<notin> set D) edges)"
        using s(2) u unfolding edges by simp
      then have "0 < pending edges (set D) (target e2)"
        unfolding pending_def by (metis length_pos_if_in_set)
      with pending_le_in_degree [of edges "set D" "target e2"] i2 show ?thesis by simp
    qed
    have xs: "?xs = successors es1 u @ target e1 # (successors es2 u @ target e2 # successors es3 u)"
      unfolding edges by (simp add: successors_append s)
    have "\<exists>a b. snd (fold relax (successors es1 u @ target e1 # (successors es2 u @ target e2 # successors es3 u))
                       (deg, q)) = q @ a @ target e1 # b \<and> target e2 \<in> set b"
    proof (rule fold_relax_order)
      show "get_or_zero deg (target e1) = 1" by (simp add: deg p1)
      show "get_or_zero deg (target e2) = 1" by (simp add: deg p2)
      show "target e1 \<notin> set (successors es1 u)"
        using z2(1) unfolding in_degree_zero in_successors by blast
      show "target e2 \<notin> set (successors es1 u)"
        using z1(1) unfolding in_degree_zero in_successors by blast
      show "target e1 \<noteq> target e2" by (rule z1(4))
      show "target e2 \<in> set (successors es2 u @ target e2 # successors es3 u)" by simp
    qed
    then obtain a b where "snd (fold relax ?xs (deg, q)) = q @ a @ target e1 # b" "target e2 \<in> set b"
      unfolding xs by blast
    then have "?L' = (D @ u # q @ a) @ target e1 # b" "target e2 \<in> set b" by simp_all
    then show ?thesis by blast
  qed
qed

lemma map_filter_snoc:
  "List.map_filter f (xs @ [x]) = List.map_filter f xs @ (case f x of None \<Rightarrow> [] | Some y \<Rightarrow> [y])"
  by (simp add: List.map_filter_def split: option.splits)

lemma kahn_loop_inv:
  assumes adj: "\<And>u. get_or_empty adjacency u = successors edges u"
  shows "kahn_inv nodes edges D (fst s) (fst (snd s)) \<Longrightarrow> snd (snd s) = List.map_filter (map_of nodeMap) D
     \<Longrightarrow> branch_order edges (D @ fst s)
     \<Longrightarrow> \<exists>D' deg'. kahn_loop adjacency nodeMap s = List.map_filter (map_of nodeMap) D' \<and>
                    kahn_inv nodes edges D' [] deg' \<and> branch_order edges D'"
  using adj
proof (induction adjacency nodeMap s arbitrary: D rule: kahn_loop.induct)
  case (1 adjacency nodeMap inDegree result)
  then show ?case
    by (auto simp: kahn_loop.simps)
next
  case (2 adjacency nodeMap nodeId queue inDegree result)
  define result' where "result' = (case map_of nodeMap nodeId of Some node \<Rightarrow> result @ [node] | None \<Rightarrow> result)"
  define s where "s = fold relax (get_or_empty adjacency nodeId) (inDegree, queue)"
  have step: "kahn_loop adjacency nodeMap (nodeId # queue, inDegree, result)
                = kahn_loop adjacency nodeMap (snd s, fst s, result')"
    unfolding result'_def s_def by (simp add: kahn_loop.simps Let_def)
  have inv: "kahn_inv nodes edges D (nodeId # queue) inDegree"
    using "2.prems"(1) by simp
  have s: "s = fold relax (successors edges nodeId) (inDegree, queue)"
    unfolding s_def by (simp add: "2.prems"(4))
  have inv': "kahn_inv nodes edges (D @ [nodeId]) (fst (snd s, fst s, result')) (fst (snd (snd s, fst s, result')))"
    using kahn_step [OF inv] by (simp add: s)
  have br: "branch_order edges (D @ nodeId # queue)"
    using "2.prems"(3) by simp
  have br': "branch_order edges ((D @ [nodeId]) @ fst (snd s, fst s, result'))"
    using kahn_step_branch [OF inv br] by (simp add: s)
  have res': "snd (snd (snd s, fst s, result')) = List.map_filter (map_of nodeMap) (D @ [nodeId])"
    using "2.prems"(2) by (simp add: result'_def map_filter_snoc split: option.splits)
  from "2.IH" [OF result'_def s_def inv' res' br' "2.prems"(4)]
  show ?case unfolding step .
qed

lemma get_or_zero_nodes:
  "get_or_zero (fold (\<lambda>node m. AList.update (node_id node) 0 m) nodes m) t
     = (if t \<in> node_id ` set nodes then 0 else get_or_zero m t)"
  by (induction nodes arbitrary: m) (auto simp: get_or_zero_update)

lemma get_or_zero_edges:
  "get_or_zero (fold (\<lambda>edge m. AList.update (target edge) (get_or_zero m (target edge) + 1) m) edges m) t
     = get_or_zero m t + int (length (filter (\<lambda>e. target e = t) edges))"
  by (induction edges arbitrary: m) (auto simp: get_or_zero_update)

lemma dom_nodes:
  "fst ` set (fold (\<lambda>node m. AList.update (node_id node) (0::int) m) nodes m)
     = fst ` set m \<union> node_id ` set nodes"
  by (induction nodes arbitrary: m) (auto simp: dom_update)

lemma dom_edges:
  "fst ` set m \<subseteq> fst ` set (fold (\<lambda>edge m. AList.update (target edge) (get_or_zero m (target edge) + 1) m) edges m)"
proof (induction edges arbitrary: m)
  case Nil
  then show ?case by simp
next
  case (Cons e edges)
  have "fst ` set m \<subseteq> fst ` set (AList.update (target e) (get_or_zero m (target e) + 1) m)"
    by (auto simp: dom_update)
  also have "\<dots> \<subseteq> fst ` set (fold (\<lambda>edge m. AList.update (target edge) (get_or_zero m (target edge) + 1) m)
                 edges (AList.update (target e) (get_or_zero m (target e) + 1) m))"
    by (rule Cons.IH)
  finally show ?case by simp
qed

lemma map_of_get_or_zero:
  "k \<in> fst ` set m \<Longrightarrow> map_of m k = Some (get_or_zero m k)"
  by (cases "map_of m k") (auto simp: get_or_zero_def map_of_eq_None_iff)

lemma initial_queue:
  "map node_id (filter (\<lambda>node. map_of
       (fold (\<lambda>edge m. AList.update (target edge) (get_or_zero m (target edge) + 1) m) edges
          (fold (\<lambda>node m. AList.update (node_id node) 0 m) nodes [])) (node_id node) = Some 0) nodes)
     = roots nodes edges"
proof -
  let ?deg0 = "fold (\<lambda>edge m. AList.update (target edge) (get_or_zero m (target edge) + 1) m) edges
          (fold (\<lambda>node m. AList.update (node_id node) 0 m) nodes [])"
  have "map_of ?deg0 (node_id n) = Some 0 \<longleftrightarrow> node_id n \<notin> target ` set edges" if "n \<in> set nodes" for n
  proof -
    have "node_id n \<in> fst ` set (fold (\<lambda>node m. AList.update (node_id node) (0::int) m) nodes [])"
      using that by (simp add: dom_nodes)
    then have "node_id n \<in> fst ` set ?deg0"
      using dom_edges by blast
    then have "map_of ?deg0 (node_id n) = Some (get_or_zero ?deg0 (node_id n))"
      by (rule map_of_get_or_zero)
    also have "get_or_zero ?deg0 (node_id n) = int (length (filter (\<lambda>e. target e = node_id n) edges))"
      using that by (simp add: get_or_zero_edges get_or_zero_nodes)
    finally have "map_of ?deg0 (node_id n) = Some 0
        \<longleftrightarrow> filter (\<lambda>e. target e = node_id n) edges = []"
      by simp
    also have "\<dots> \<longleftrightarrow> node_id n \<notin> target ` set edges"
      unfolding filter_empty_conv image_iff by metis
    finally show ?thesis .
  qed
  then have "filter (\<lambda>node. map_of ?deg0 (node_id node) = Some 0) nodes
               = filter (\<lambda>node. node_id node \<notin> target ` set edges) nodes"
    by (intro filter_cong) auto
  then show ?thesis
    by (simp add: roots_def filter_map comp_def)
qed

lemma kahn_inv_initial:
  assumes "distinct (map node_id nodes)"
  shows "kahn_inv nodes edges [] (roots nodes edges)
           (fold (\<lambda>edge m. AList.update (target edge) (get_or_zero m (target edge) + 1) m) edges
              (fold (\<lambda>node m. AList.update (node_id node) 0 m) nodes []))"
proof -
  let ?deg0 = "fold (\<lambda>edge m. AList.update (target edge) (get_or_zero m (target edge) + 1) m) edges
          (fold (\<lambda>node m. AList.update (node_id node) 0 m) nodes [])"
  have deg: "get_or_zero ?deg0 t = int (pending edges (set []) t)" for t
  proof -
    have "get_or_zero [] t = (0::int)" by (simp add: get_or_zero_def)
    then show ?thesis
      by (simp add: get_or_zero_edges get_or_zero_nodes pending_def)
  qed
  have dist: "distinct ([] @ roots nodes edges)"
    using assms by (simp add: roots_def)
  have mem: "t \<in> set ([] @ roots nodes edges) \<longleftrightarrow> t \<in> known_ids nodes edges \<and> pending edges (set []) t = 0" for t
  proof -
    have "pending edges (set []) t = 0 \<longleftrightarrow> t \<notin> target ` set edges"
      unfolding pending_zero_iff by auto
    then show ?thesis
      unfolding roots_def known_ids_def by auto
  qed
  show ?thesis
    unfolding kahn_inv_def using dist deg mem by auto
qed

lemma nodeMap_dom:
  "fst ` set (fold (\<lambda>n m. AList.update (node_id n) n m) nodes m) = fst ` set m \<union> node_id ` set nodes"
  by (induction nodes arbitrary: m) (auto simp: dom_update)

lemma nodeMap_node_id:
  assumes "map_of (fold (\<lambda>n m. AList.update (node_id n) n m) nodes []) t = Some n"
  shows "node_id n = t" "n \<in> set nodes"
  using nodeMap_lookup [OF assms] by simp_all

lemma nodeMap_None:
  "map_of (fold (\<lambda>n m. AList.update (node_id n) n m) nodes []) t = None \<longleftrightarrow> t \<notin> node_id ` set nodes"
  using nodeMap_dom [of nodes "[]"] by (simp add: map_of_eq_None_iff)

lemma map_filter_nodeMap:
  "map node_id (List.map_filter (map_of (fold (\<lambda>n m. AList.update (node_id n) n m) nodes [])) D)
     = filter (\<lambda>t. t \<in> node_id ` set nodes) D"
proof (induction D)
  case Nil
  then show ?case by (simp add: List.map_filter_def)
next
  case (Cons t D)
  show ?case
  proof (cases "map_of (fold (\<lambda>n m. AList.update (node_id n) n m) nodes []) t")
    case None
    then have "t \<notin> node_id ` set nodes" by (simp add: nodeMap_None)
    with None Cons.IH show ?thesis by simp
  next
    case (Some n)
    then have "node_id n = t" "t \<in> node_id ` set nodes"
      using nodeMap_node_id [OF Some] by auto
    with Some Cons.IH show ?thesis by simp
  qed
qed

text \<open>The outcome of the sort, read off the list of dequeued ids.\<close>

lemma topologicalSort_dequeued:
  assumes "distinct (map node_id nodes)"
  shows "\<exists>D deg sortedNodes.
           topologicalSort nodes edges = (if length sortedNodes = length nodes then Some sortedNodes else None) \<and>
           map node_id sortedNodes = filter (\<lambda>t. t \<in> node_id ` set nodes) D \<and>
           kahn_inv nodes edges D [] deg \<and> branch_order edges D"
proof -
  let ?nodeMap = "fold (\<lambda>n m. AList.update (node_id n) n m) nodes []"
  let ?deg0 = "fold (\<lambda>edge m. AList.update (target edge) (get_or_zero m (target edge) + 1) m) edges
          (fold (\<lambda>node m. AList.update (node_id node) 0 m) nodes [])"
  let ?adj = "buildAdjacencyList nodes edges"
  define r where "r = kahn_loop ?adj ?nodeMap (roots nodes edges, ?deg0, [])"
  have ts: "topologicalSort nodes edges = (if length r = length nodes then Some r else None)"
    unfolding topologicalSort_def Let_def r_def initial_queue ..
  have adj: "get_or_empty ?adj u = successors edges u" for u
    by (simp add: neighbours_buildAdjacencyList successors_def)
  have "\<exists>D' deg'. kahn_loop ?adj ?nodeMap (roots nodes edges, ?deg0, []) = List.map_filter (map_of ?nodeMap) D' \<and>
                    kahn_inv nodes edges D' [] deg' \<and> branch_order edges D'"
  proof (rule kahn_loop_inv [where D = "[]"])
    show "get_or_empty ?adj u = successors edges u" for u by (rule adj)
    show "kahn_inv nodes edges [] (fst (roots nodes edges, ?deg0, [])) (fst (snd (roots nodes edges, ?deg0, [])))"
      using kahn_inv_initial [OF assms, of edges] by simp
    show "snd (snd (roots nodes edges, ?deg0, [])) = List.map_filter (map_of ?nodeMap) []"
      by simp
    show "branch_order edges ([] @ fst (roots nodes edges, ?deg0, []))"
      unfolding branch_order_def roots_def by auto
  qed
  then obtain D deg where D: "r = List.map_filter (map_of ?nodeMap) D" "kahn_inv nodes edges D [] deg"
      "branch_order edges D"
    unfolding r_def by blast
  have "map node_id r = filter (\<lambda>t. t \<in> node_id ` set nodes) D"
    unfolding D(1) by (rule map_filter_nodeMap)
  with ts D(2,3) show ?thesis by blast
qed

text \<open>For an acyclic edge relation, an id is dequeued exactly when it and everything that
  reaches it along the edges is a listed node or the target of an edge.\<close>

lemma kahn_dequeued_iff:
  assumes inv: "kahn_inv nodes edges D [] deg"
    and acyc: "acyclic (edge_rel edges)"
  shows "t \<in> set D \<longleftrightarrow> (\<forall>y. (y, t) \<in> (edge_rel edges)\<^sup>* \<longrightarrow> y \<in> known_ids nodes edges)"
proof -
  from inv have mem: "\<And>t. t \<in> set D \<longleftrightarrow> t \<in> known_ids nodes edges \<and> pending edges (set D) t = 0"
    unfolding kahn_inv_def by simp
  have fin: "finite (edge_rel edges)"
    by (simp add: edge_rel_def)
  have wfr: "wf (edge_rel edges)"
    using fin acyc by (rule finite_acyclic_wf)
  show ?thesis
  proof
    assume t: "t \<in> set D"
    have "y \<in> set D" if "(y, t) \<in> (edge_rel edges)\<^sup>*" for y
      using that
    proof (induction rule: converse_rtrancl_induct)
      case base
      then show ?case by (rule t)
    next
      case (step y z)
      from step.hyps(1) obtain e where e: "e \<in> set edges" "source e = y" "target e = z"
        unfolding edge_rel_def by auto
      from step.IH mem [of z] have "pending edges (set D) z = 0" by simp
      with e show ?case unfolding pending_zero_iff by blast
    qed
    with mem show "\<forall>y. (y, t) \<in> (edge_rel edges)\<^sup>* \<longrightarrow> y \<in> known_ids nodes edges"
      by blast
  next
    assume anc: "\<forall>y. (y, t) \<in> (edge_rel edges)\<^sup>* \<longrightarrow> y \<in> known_ids nodes edges"
    show "t \<in> set D"
    proof (rule ccontr)
      assume "t \<notin> set D"
      then have x: "t \<in> {z. (z, t) \<in> (edge_rel edges)\<^sup>* \<and> z \<notin> set D}" by simp
      from wfE_min [OF wfr x] obtain z where z: "(z, t) \<in> (edge_rel edges)\<^sup>*" "z \<notin> set D"
          and zmin: "\<And>y. (y, z) \<in> edge_rel edges \<Longrightarrow> y \<notin> {z. (z, t) \<in> (edge_rel edges)\<^sup>* \<and> z \<notin> set D}"
        by blast
      from z anc have "z \<in> known_ids nodes edges" by blast
      with z(2) mem [of z] have "pending edges (set D) z \<noteq> 0" by auto
      then obtain e where e: "e \<in> set edges" "target e = z" "source e \<notin> set D"
        unfolding pending_zero_iff by blast
      have ez: "(source e, z) \<in> edge_rel edges"
        using e(1,2) unfolding edge_rel_def by force
      from ez z(1) have "(source e, t) \<in> (edge_rel edges)\<^sup>*"
        by (rule converse_rtrancl_into_rtrancl)
      with zmin [OF ez] e(3) show False by simp
    qed
  qed
qed

lemma acyclic_not_reachable_cycle:
  "acyclic (edge_rel edges) \<Longrightarrow> \<not> reachable_cycle nodes edges"
  unfolding reachable_cycle_def acyclic_def by blast

lemma plan_after_sort:
  assumes "distinct (map node_id (wf_nodes w))" and "acyclic (edge_rel (wf_edges w))"
  shows "\<exists>D deg sortedNodes.
           kahn_inv (wf_nodes w) (wf_edges w) D [] deg \<and> branch_order (wf_edges w) D \<and>
           map node_id sortedNodes = filter (\<lambda>t. t \<in> node_id ` set (wf_nodes w)) D \<and>
           buildExecutionPlan w =
             Some (if length sortedNodes = length (wf_nodes w)
                   then \<lparr>plan_nodes = map (\<lambda>node.
                            \<lparr>ctx_nodeId = node_id node, ctx_node = node, ctx_inputs = Map.empty,
                             dependencies = get_or_empty (buildDependencyMap (wf_edges w)) (node_id node)\<rparr>)
                            sortedNodes,
                         plan_valid = True, plan_errors = []\<rparr>
                   else \<lparr>plan_nodes = [], plan_valid = False,
                         plan_errors = [''Failed to topologically sort nodes (possible cycle)'']\<rparr>)"
proof -
  have "detectCycle (wf_nodes w) (wf_edges w) = Some False"
    using assms(2) by (simp add: detectCycle_correct acyclic_not_reachable_cycle)
  note plan = buildExecutionPlan_acyclic [OF this]
  from topologicalSort_dequeued [OF assms(1), of "wf_edges w"] obtain D deg sortedNodes where
    ts: "topologicalSort (wf_nodes w) (wf_edges w)
           = (if length sortedNodes = length (wf_nodes w) then Some sortedNodes else None)"
    and ids: "map node_id sortedNodes = filter (\<lambda>t. t \<in> node_id ` set (wf_nodes w)) D"
    and inv: "kahn_inv (wf_nodes w) (wf_edges w) D [] deg" "branch_order (wf_edges w) D"
    by blast
  have "buildExecutionPlan w =
             Some (if length sortedNodes = length (wf_nodes w)
                   then \<lparr>plan_nodes = map (\<lambda>node.
                            \<lparr>ctx_nodeId = node_id node, ctx_node = node, ctx_inputs = Map.empty,
                             dependencies = get_or_empty (buildDependencyMap (wf_edges w)) (node_id node)\<rparr>)
                            sortedNodes,
                         plan_valid = True, plan_errors = []\<rparr>
                   else \<lparr>plan_nodes = [], plan_valid = False,
                         plan_errors = [''Failed to topologically sort nodes (possible cycle)'']\<rparr>)"
    unfolding plan ts by simp
  with inv ids show ?thesis by blast
qed

lemma filter_ids_length:
  assumes "distinct D" "distinct ids" "set ids \<subseteq> set D"
  shows "length (filter (\<lambda>t. t \<in> set ids) D) = length ids"
proof -
  have "distinct (filter (\<lambda>t. t \<in> set ids) D)" using assms(1) by simp
  then have "length (filter (\<lambda>t. t \<in> set ids) D) = card (set (filter (\<lambda>t. t \<in> set ids) D))"
    by (rule distinct_card [symmetric])
  also have "set (filter (\<lambda>t. t \<in> set ids) D) = set ids" using assms(3) by auto
  also have "card (set ids) = length ids" using assms(2) by (simp add: distinct_card)
  finally show ?thesis .
qed

lemma filter_ids_short:
  assumes "distinct D" "distinct ids" "b \<in> set ids" "b \<notin> set D"
  shows "length (filter (\<lambda>t. t \<in> set ids) D) < length ids"
proof -
  have "distinct (filter (\<lambda>t. t \<in> set ids) D)" using assms(1) by simp
  then have "length (filter (\<lambda>t. t \<in> set ids) D) = card (set (filter (\<lambda>t. t \<in> set ids) D))"
    by (rule distinct_card [symmetric])
  also have "set (filter (\<lambda>t. t \<in> set ids) D) \<subset> set ids" using assms(3,4) by auto
  then have "card (set (filter (\<lambda>t. t \<in> set ids) D)) < card (set ids)"
    by (intro psubset_card_mono) simp_all
  also have "card (set ids) = length ids" using assms(2) by (simp add: distinct_card)
  finally show ?thesis .
qed

text \<open>A workflow whose node ids are unique and whose edge relation is acyclic: the plan is
  valid exactly when every listed node is dequeued, and then lists the dequeued ids that
  are nodes.\<close>

lemma plan_of_dag:
  assumes "distinct (map node_id (wf_nodes w))"
    and "acyclic (edge_rel (wf_edges w))"
  shows "\<exists>D deg.
           kahn_inv (wf_nodes w) (wf_edges w) D [] deg \<and> branch_order (wf_edges w) D \<and>
           (node_id ` set (wf_nodes w) \<subseteq> set D \<longrightarrow>
              (\<exists>plan. buildExecutionPlan w = Some plan \<and> plan_valid plan \<and> plan_errors plan = [] \<and>
                 map ctx_nodeId (plan_nodes plan) = filter (\<lambda>t. t \<in> node_id ` set (wf_nodes w)) D \<and>
                 length (plan_nodes plan) = length (wf_nodes w))) \<and>
           (\<not> node_id ` set (wf_nodes w) \<subseteq> set D \<longrightarrow>
              buildExecutionPlan w =
                Some \<lparr>plan_nodes = [], plan_valid = False,
                      plan_errors = [''Failed to topologically sort nodes (possible cycle)'']\<rparr>)"
proof -
  from plan_after_sort [OF assms] obtain D deg sortedNodes where
    inv: "kahn_inv (wf_nodes w) (wf_edges w) D [] deg"
    and br: "branch_order (wf_edges w) D"
    and ids: "map node_id sortedNodes = filter (\<lambda>t. t \<in> node_id ` set (wf_nodes w)) D"
    and plan: "buildExecutionPlan w =
             Some (if length sortedNodes = length (wf_nodes w)
                   then \<lparr>plan_nodes = map (\<lambda>node.
                            \<lparr>ctx_nodeId = node_id node, ctx_node = node, ctx_inputs = Map.empty,
                             dependencies = get_or_empty (buildDependencyMap (wf_edges w)) (node_id node)\<rparr>)
                            sortedNodes,
                         plan_valid = True, plan_errors = []\<rparr>
                   else \<lparr>plan_nodes = [], plan_valid = False,
                         plan_errors = [''Failed to topologically sort nodes (possible cycle)'']\<rparr>)"
    by blast
  have dist: "distinct D" using inv unfolding kahn_inv_def by simp
  have len: "length sortedNodes = length (filter (\<lambda>t. t \<in> set (map node_id (wf_nodes w))) D)"
    using arg_cong [OF ids, of length] by simp
  have valid: "\<exists>plan. buildExecutionPlan w = Some plan \<and> plan_valid plan \<and> plan_errors plan = [] \<and>
                 map ctx_nodeId (plan_nodes plan) = filter (\<lambda>t. t \<in> node_id ` set (wf_nodes w)) D \<and>
                 length (plan_nodes plan) = length (wf_nodes w)"
    if sub: "node_id ` set (wf_nodes w) \<subseteq> set D"
  proof -
    have "length (filter (\<lambda>t. t \<in> set (map node_id (wf_nodes w))) D) = length (map node_id (wf_nodes w))"
      using dist assms(1) by (rule filter_ids_length) (use sub in simp)
    then have len': "length sortedNodes = length (wf_nodes w)"
      using len by simp
    define plan' where "plan' = \<lparr>plan_nodes = map (\<lambda>node.
                            \<lparr>ctx_nodeId = node_id node, ctx_node = node, ctx_inputs = Map.empty,
                             dependencies = get_or_empty (buildDependencyMap (wf_edges w)) (node_id node)\<rparr>)
                            sortedNodes,
                         plan_valid = True, plan_errors = []\<rparr>"
    have "buildExecutionPlan w = Some plan'" using plan len' by (simp add: plan'_def)
    moreover have "plan_valid plan'" "plan_errors plan' = []" "length (plan_nodes plan') = length (wf_nodes w)"
      by (simp_all add: plan'_def len')
    moreover have "map ctx_nodeId (plan_nodes plan') = filter (\<lambda>t. t \<in> node_id ` set (wf_nodes w)) D"
      using ids by (simp add: plan'_def comp_def)
    ultimately show ?thesis by blast
  qed
  have invalid: "buildExecutionPlan w =
                Some \<lparr>plan_nodes = [], plan_valid = False,
                      plan_errors = [''Failed to topologically sort nodes (possible cycle)'']\<rparr>"
    if sub: "\<not> node_id ` set (wf_nodes w) \<subseteq> set D"
  proof -
    from sub obtain b where b: "b \<in> set (map node_id (wf_nodes w))" "b \<notin> set D" by auto
    have "length (filter (\<lambda>t. t \<in> set (map node_id (wf_nodes w))) D) < length (map node_id (wf_nodes w))"
      using dist assms(1) b by (rule filter_ids_short)
    then have "length sortedNodes \<noteq> length (wf_nodes w)"
      using len by simp
    then show ?thesis using plan by simp
  qed
  show ?thesis
    using inv br valid invalid by blast
qed

section \<open>The plan of an acyclic graph\<close>

lemma sources_listed_origins:
  assumes "source ` set edges \<subseteq> node_id ` set nodes"
    and "b \<in> node_id ` set nodes" and "(y, b) \<in> (edge_rel edges)\<^sup>*"
  shows "y \<in> known_ids nodes edges"
  using assms(3)
proof (cases rule: converse_rtranclE)
  case base
  with assms(2) show ?thesis by (simp add: known_ids_def)
next
  case (step z)
  then have "y \<in> source ` set edges" unfolding edge_rel_def by force
  with assms(1) show ?thesis by (auto simp: known_ids_def)
qed

lemma before_index:
  assumes "distinct xs" "xs = a @ t # b" "s \<in> set a"
    and "i < length xs" "j < length xs" "xs ! i = s" "xs ! j = t"
  shows "i < j"
proof -
  have ta: "xs ! length a = t" unfolding assms(2) by simp
  have la: "length a < length xs" unfolding assms(2) by simp
  have j: "j = length a"
    using nth_eq_iff_index_eq [OF assms(1) assms(5) la] assms(7) ta by simp
  from assms(3) obtain k where k: "k < length a" "a ! k = s"
    by (auto simp: in_set_conv_nth)
  then have xk: "xs ! k = s" and kl: "k < length xs" unfolding assms(2) by (simp_all add: nth_append)
  have "i = k"
    using nth_eq_iff_index_eq [OF assms(1) assms(4) kl] assms(6) xk by simp
  with k(1) j show ?thesis by simp
qed

text \<open>
  C1 (amended). For every acyclic workflow graph (node ids unique, every edge leaving a
  listed node), \<^verbatim>\<open>buildExecutionPlan\<close> returns a valid plan that holds every node exactly
  once and places, for every edge, the source strictly before the target. The nodes with no
  incoming edge come first, in node-array order (so with no edges at all the plan is the
  node array, \<^verbatim>\<open>[A, B]\<close> for the nodes \<^verbatim>\<open>[A, B]\<close>). Ties among branches break by edge-array
  position: of two successors of the same node that have no other incoming edge, the one
  whose edge comes first in the edge array is placed first.
\<close>

theorem plan_of_acyclic_graph:
  assumes "distinct (map node_id (wf_nodes w))"
    and "source ` set (wf_edges w) \<subseteq> node_id ` set (wf_nodes w)"
    and "acyclic (edge_rel (wf_edges w))"
  shows "\<exists>plan. buildExecutionPlan w = Some plan \<and> plan_valid plan \<and> plan_errors plan = [] \<and>
           distinct (map ctx_nodeId (plan_nodes plan)) \<and>
           set (map ctx_nodeId (plan_nodes plan)) = node_id ` set (wf_nodes w) \<and>
           (\<forall>e \<in> set (wf_edges w). \<forall>i j.
              i < length (plan_nodes plan) \<and> j < length (plan_nodes plan) \<and>
              ctx_nodeId (plan_nodes plan ! i) = source e \<and> ctx_nodeId (plan_nodes plan ! j) = target e
              \<longrightarrow> i < j) \<and>
           (\<exists>rest. map ctx_nodeId (plan_nodes plan) = roots (wf_nodes w) (wf_edges w) @ rest) \<and>
           (wf_edges w = [] \<longrightarrow> map ctx_nodeId (plan_nodes plan) = map node_id (wf_nodes w)) \<and>
           (\<forall>es1 e1 es2 e2 es3.
              wf_edges w = es1 @ e1 # es2 @ e2 # es3 \<and> source e1 = source e2 \<and>
              in_degree (wf_edges w) (target e1) = 1 \<and> in_degree (wf_edges w) (target e2) = 1 \<and>
              target e1 \<in> node_id ` set (wf_nodes w) \<and> target e2 \<in> node_id ` set (wf_nodes w)
              \<longrightarrow> (\<exists>before after. map ctx_nodeId (plan_nodes plan) = before @ target e1 # after \<and>
                                  target e2 \<in> set after))"
proof -
  let ?ids = "node_id ` set (wf_nodes w)"
  let ?P = "\<lambda>t. t \<in> ?ids"
  from plan_of_dag [OF assms(1,3)] obtain D deg where
    inv: "kahn_inv (wf_nodes w) (wf_edges w) D [] deg"
    and br: "branch_order (wf_edges w) D"
    and valid: "?ids \<subseteq> set D \<longrightarrow>
              (\<exists>plan. buildExecutionPlan w = Some plan \<and> plan_valid plan \<and> plan_errors plan = [] \<and>
                 map ctx_nodeId (plan_nodes plan) = filter ?P D \<and>
                 length (plan_nodes plan) = length (wf_nodes w))"
    by blast
  have D: "?ids \<subseteq> set D"
  proof
    fix b assume "b \<in> ?ids"
    then have "\<forall>y. (y, b) \<in> (edge_rel (wf_edges w))\<^sup>* \<longrightarrow> y \<in> known_ids (wf_nodes w) (wf_edges w)"
      using sources_listed_origins [OF assms(2)] by blast
    then show "b \<in> set D"
      unfolding kahn_dequeued_iff [OF inv assms(3)] .
  qed
  with valid obtain plan where
    plan: "buildExecutionPlan w = Some plan" "plan_valid plan" "plan_errors plan = []"
    and order: "map ctx_nodeId (plan_nodes plan) = filter ?P D"
    and len: "length (plan_nodes plan) = length (wf_nodes w)"
    by blast
  let ?order = "map ctx_nodeId (plan_nodes plan)"
  from inv have dist: "distinct D"
    and ord: "\<And>e. e \<in> set (wf_edges w) \<Longrightarrow> target e \<in> set D
                \<Longrightarrow> \<exists>D1 D2. D = D1 @ target e # D2 \<and> source e \<in> set D1"
    and pre: "\<exists>ys. D = roots (wf_nodes w) (wf_edges w) @ ys"
    unfolding kahn_inv_def by auto
  have d: "distinct ?order" unfolding order using dist by simp
  have s: "set ?order = ?ids" unfolding order using D by auto
  have e: "i < j"
    if "e \<in> set (wf_edges w)" "i < length (plan_nodes plan)" "j < length (plan_nodes plan)"
      "ctx_nodeId (plan_nodes plan ! i) = source e" "ctx_nodeId (plan_nodes plan ! j) = target e"
    for e i j
  proof -
    have ij: "i < length ?order" "j < length ?order" "?order ! i = source e" "?order ! j = target e"
      using that by simp_all
    then have "target e \<in> set ?order" by (metis nth_mem)
    then have t: "target e \<in> ?ids" "target e \<in> set D" unfolding order by simp_all
    have src: "source e \<in> ?ids" using assms(2) that(1) by blast
    from ord [OF that(1) t(2)] obtain D1 D2 where D12: "D = D1 @ target e # D2" "source e \<in> set D1"
      by blast
    have o: "?order = filter ?P D1 @ target e # filter ?P D2"
      unfolding order D12(1) using t(1) by simp
    have m: "source e \<in> set (filter ?P D1)" using D12(2) src by simp
    show ?thesis by (rule before_index [OF d o m ij])
  qed
  have r: "\<exists>rest. ?order = roots (wf_nodes w) (wf_edges w) @ rest"
  proof -
    from pre obtain ys where ys: "D = roots (wf_nodes w) (wf_edges w) @ ys" by blast
    have "filter ?P (roots (wf_nodes w) (wf_edges w)) = roots (wf_nodes w) (wf_edges w)"
    proof (rule filter_True)
      show "\<forall>x \<in> set (roots (wf_nodes w) (wf_edges w)). ?P x"
        unfolding roots_def by auto
    qed
    then have "?order = roots (wf_nodes w) (wf_edges w) @ filter ?P ys"
      unfolding order ys by simp
    then show ?thesis by blast
  qed
  have n: "?order = map node_id (wf_nodes w)" if "wf_edges w = []"
  proof -
    from r obtain rest where rest: "?order = roots (wf_nodes w) (wf_edges w) @ rest" by blast
    have "roots (wf_nodes w) (wf_edges w) = map node_id (wf_nodes w)"
      using that by (simp add: roots_def)
    with rest have "?order = map node_id (wf_nodes w) @ rest" by simp
    moreover have "length ?order = length (map node_id (wf_nodes w))" using len by simp
    ultimately show ?thesis by simp
  qed
  have b: "\<exists>before after. ?order = before @ target e1 # after \<and> target e2 \<in> set after"
    if "wf_edges w = es1 @ e1 # es2 @ e2 # es3" "source e1 = source e2"
      "in_degree (wf_edges w) (target e1) = 1" "in_degree (wf_edges w) (target e2) = 1"
      "target e1 \<in> ?ids" "target e2 \<in> ?ids"
    for es1 e1 es2 e2 es3
  proof -
    have "target e2 \<in> set D" using that(6) D by blast
    with br that(1-4) obtain L1 L2 where L: "D = L1 @ target e1 # L2" "target e2 \<in> set L2"
      unfolding branch_order_def by blast
    have "?order = filter ?P L1 @ target e1 # filter ?P L2"
      unfolding order L(1) using that(5) by simp
    moreover have "target e2 \<in> set (filter ?P L2)" using L(2) that(6) by simp
    ultimately show ?thesis by blast
  qed
  have e': "\<forall>e \<in> set (wf_edges w). \<forall>i j.
              i < length (plan_nodes plan) \<and> j < length (plan_nodes plan) \<and>
              ctx_nodeId (plan_nodes plan ! i) = source e \<and> ctx_nodeId (plan_nodes plan ! j) = target e
              \<longrightarrow> i < j"
    using e by blast
  have n': "wf_edges w = [] \<longrightarrow> ?order = map node_id (wf_nodes w)"
    using n by blast
  have b': "\<forall>es1 e1 es2 e2 es3.
              wf_edges w = es1 @ e1 # es2 @ e2 # es3 \<and> source e1 = source e2 \<and>
              in_degree (wf_edges w) (target e1) = 1 \<and> in_degree (wf_edges w) (target e2) = 1 \<and>
              target e1 \<in> node_id ` set (wf_nodes w) \<and> target e2 \<in> node_id ` set (wf_nodes w)
              \<longrightarrow> (\<exists>before after. ?order = before @ target e1 # after \<and> target e2 \<in> set after)"
    using b by blast
  show ?thesis
    by (rule exI [of _ plan]) (intro conjI plan d s e' r n' b')
qed

theorem plan_of_acyclic_graph_witness:
  "plan_order ex_two = Some (True, [''A'', ''B''])"
proof -
  have "distinct (map node_id (wf_nodes ex_two))"
    "source ` set (wf_edges ex_two) \<subseteq> node_id ` set (wf_nodes ex_two)"
    "acyclic (edge_rel (wf_edges ex_two))"
    by (simp_all add: ex_two_def ex_workflow_def ex_node_def edge_rel_def acyclic_def)
  from plan_of_acyclic_graph [OF this] obtain plan where
    "buildExecutionPlan ex_two = Some plan" "plan_valid plan"
    "wf_edges ex_two = [] \<longrightarrow> map ctx_nodeId (plan_nodes plan) = map node_id (wf_nodes ex_two)"
    by blast
  then show ?thesis
    by (simp add: plan_order_def ex_two_def ex_workflow_def ex_node_def)
qed

text \<open>
  The claim as written fails for branches: with the node array \<^verbatim>\<open>[A, C, B]\<close> and the edges
  \<^verbatim>\<open>A -> B\<close>, \<^verbatim>\<open>A -> C\<close>, the independent branches \<^verbatim>\<open>B\<close> and \<^verbatim>\<open>C\<close> are placed in the order
  of their edges, not in node-array order.
\<close>

theorem branch_tie_counterexample:
  "map node_id (wf_nodes ex_branching) = [''A'', ''C'', ''B''] \<and>
   map (\<lambda>e. (source e, target e)) (wf_edges ex_branching) = [(''A'', ''B''), (''A'', ''C'')] \<and>
   plan_order ex_branching = Some (True, [''A'', ''B'', ''C''])"
proof -
  have "plan_order ex_branching = Some (True, [''A'', ''B'', ''C''])"
    by code_simp
  then show ?thesis
    by (simp add: ex_branching_def ex_workflow_def ex_node_def ex_edge_def)
qed

section \<open>Dangling edges in the planner\<close>

lemma acyclic_no_edges: "acyclic ({} :: (string \<times> string) set)"
  by (simp add: acyclic_def)

lemma singleton_list: "distinct xs \<Longrightarrow> set xs = {a} \<Longrightarrow> xs = [a]"
  by (cases xs; cases "tl xs") auto

text \<open>
  C10 (amended). \<^verbatim>\<open>buildExecutionPlan\<close> does not validate edge endpoints, and dangling edges
  split the acyclic workflows (node ids unique) in two. If some listed node is reached along
  the edges from an id that is neither a node nor the target of an edge (in particular, if
  an edge into a listed node has such a source), the plan is invalid with the single error
  \<^verbatim>\<open>Failed to topologically sort nodes (possible cycle)\<close>. Otherwise (in particular, if every
  edge leaves a listed node, wherever the edges lead) the plan is valid and holds a context
  for every node, each exactly once.
\<close>

theorem dangling_edges_diverge:
  assumes "distinct (map node_id (wf_nodes w))" and "acyclic (edge_rel (wf_edges w))"
  shows "(stray_origin (wf_nodes w) (wf_edges w)
            \<longrightarrow> buildExecutionPlan w =
                  Some \<lparr>plan_nodes = [], plan_valid = False,
                        plan_errors = [''Failed to topologically sort nodes (possible cycle)'']\<rparr>) \<and>
         (\<not> stray_origin (wf_nodes w) (wf_edges w)
            \<longrightarrow> (\<exists>plan. buildExecutionPlan w = Some plan \<and> plan_valid plan \<and> plan_errors plan = [] \<and>
                   distinct (map ctx_nodeId (plan_nodes plan)) \<and>
                   set (map ctx_nodeId (plan_nodes plan)) = node_id ` set (wf_nodes w))) \<and>
         ((\<exists>e \<in> set (wf_edges w). source e \<notin> node_id ` set (wf_nodes w) \<and>
              source e \<notin> target ` set (wf_edges w) \<and> target e \<in> node_id ` set (wf_nodes w))
            \<longrightarrow> stray_origin (wf_nodes w) (wf_edges w)) \<and>
         (source ` set (wf_edges w) \<subseteq> node_id ` set (wf_nodes w)
            \<longrightarrow> \<not> stray_origin (wf_nodes w) (wf_edges w))"
proof -
  let ?ids = "node_id ` set (wf_nodes w)"
  let ?P = "\<lambda>t. t \<in> ?ids"
  let ?stray = "stray_origin (wf_nodes w) (wf_edges w)"
  from plan_of_dag [OF assms] obtain D deg where
    inv: "kahn_inv (wf_nodes w) (wf_edges w) D [] deg"
    and valid: "?ids \<subseteq> set D \<longrightarrow>
              (\<exists>plan. buildExecutionPlan w = Some plan \<and> plan_valid plan \<and> plan_errors plan = [] \<and>
                 map ctx_nodeId (plan_nodes plan) = filter ?P D \<and>
                 length (plan_nodes plan) = length (wf_nodes w))"
    and invalid: "\<not> ?ids \<subseteq> set D \<longrightarrow>
              buildExecutionPlan w =
                Some \<lparr>plan_nodes = [], plan_valid = False,
                      plan_errors = [''Failed to topologically sort nodes (possible cycle)'']\<rparr>"
    by blast
  have dist: "distinct D" using inv unfolding kahn_inv_def by simp
  note deq = kahn_dequeued_iff [OF inv assms(2)]
  have sub: "?ids \<subseteq> set D \<longleftrightarrow> \<not> ?stray"
    unfolding subset_iff deq known_ids_def stray_origin_def by blast
  have a: "?stray \<longrightarrow> buildExecutionPlan w =
                  Some \<lparr>plan_nodes = [], plan_valid = False,
                        plan_errors = [''Failed to topologically sort nodes (possible cycle)'']\<rparr>"
    using invalid sub by blast
  have b: "\<not> ?stray \<longrightarrow> (\<exists>plan. buildExecutionPlan w = Some plan \<and> plan_valid plan \<and> plan_errors plan = [] \<and>
                   distinct (map ctx_nodeId (plan_nodes plan)) \<and>
                   set (map ctx_nodeId (plan_nodes plan)) = ?ids)"
  proof
    assume "\<not> ?stray"
    then have D: "?ids \<subseteq> set D" using sub by blast
    with valid obtain plan where
      plan: "buildExecutionPlan w = Some plan" "plan_valid plan" "plan_errors plan = []"
      and order: "map ctx_nodeId (plan_nodes plan) = filter ?P D"
      by blast
    have "distinct (map ctx_nodeId (plan_nodes plan))" unfolding order using dist by simp
    moreover have "set (map ctx_nodeId (plan_nodes plan)) = ?ids" unfolding order using D by auto
    ultimately show "\<exists>plan. buildExecutionPlan w = Some plan \<and> plan_valid plan \<and> plan_errors plan = [] \<and>
                   distinct (map ctx_nodeId (plan_nodes plan)) \<and>
                   set (map ctx_nodeId (plan_nodes plan)) = ?ids"
      using plan by blast
  qed
  have c: "(\<exists>e \<in> set (wf_edges w). source e \<notin> ?ids \<and>
              source e \<notin> target ` set (wf_edges w) \<and> target e \<in> ?ids) \<longrightarrow> ?stray"
  proof
    assume "\<exists>e \<in> set (wf_edges w). source e \<notin> ?ids \<and>
              source e \<notin> target ` set (wf_edges w) \<and> target e \<in> ?ids"
    then obtain e where e: "e \<in> set (wf_edges w)" "source e \<notin> ?ids"
        "source e \<notin> target ` set (wf_edges w)" "target e \<in> ?ids"
      by blast
    have "(source e, target e) \<in> edge_rel (wf_edges w)"
      using e(1) unfolding edge_rel_def by force
    then have "(source e, target e) \<in> (edge_rel (wf_edges w))\<^sup>*" ..
    with e(2,3,4) show ?stray
      unfolding stray_origin_def by blast
  qed
  have d: "source ` set (wf_edges w) \<subseteq> ?ids \<longrightarrow> \<not> ?stray"
  proof
    assume src: "source ` set (wf_edges w) \<subseteq> ?ids"
    show "\<not> ?stray"
    proof
      assume ?stray
      then obtain b y where "b \<in> ?ids" "(y, b) \<in> (edge_rel (wf_edges w))\<^sup>*"
          "y \<notin> ?ids" "y \<notin> target ` set (wf_edges w)"
        unfolding stray_origin_def by blast
      with sources_listed_origins [OF src this(1,2)] show False
        by (simp add: known_ids_def)
    qed
  qed
  show ?thesis
    by (intro conjI a b c d)
qed

theorem dangling_edges_diverge_witness:
  "plan_errors_of ex_dangling_source = Some [''Failed to topologically sort nodes (possible cycle)''] \<and>
   plan_order ex_dangling_source = Some (False, []) \<and>
   plan_order ex_dangling_target = Some (True, [''A''])"
proof -
  have s: "distinct (map node_id (wf_nodes ex_dangling_source))"
      "acyclic (edge_rel (wf_edges ex_dangling_source))"
      "\<exists>e \<in> set (wf_edges ex_dangling_source). source e \<notin> node_id ` set (wf_nodes ex_dangling_source) \<and>
              source e \<notin> target ` set (wf_edges ex_dangling_source) \<and>
              target e \<in> node_id ` set (wf_nodes ex_dangling_source)"
    by (simp_all add: ex_dangling_source_def ex_workflow_def ex_node_def ex_edge_def edge_rel_def
          acyclic_no_edges)
  have t: "distinct (map node_id (wf_nodes ex_dangling_target))"
      "acyclic (edge_rel (wf_edges ex_dangling_target))"
      "source ` set (wf_edges ex_dangling_target) \<subseteq> node_id ` set (wf_nodes ex_dangling_target)"
    by (simp_all add: ex_dangling_target_def ex_workflow_def ex_node_def ex_edge_def edge_rel_def
          acyclic_no_edges)
  from dangling_edges_diverge [OF s(1,2)] s(3)
  have "buildExecutionPlan ex_dangling_source =
          Some \<lparr>plan_nodes = [], plan_valid = False,
                plan_errors = [''Failed to topologically sort nodes (possible cycle)'']\<rparr>"
    by blast
  then have a: "plan_errors_of ex_dangling_source = Some [''Failed to topologically sort nodes (possible cycle)'']"
      "plan_order ex_dangling_source = Some (False, [])"
    by (simp_all add: plan_errors_of_def plan_order_def)
  from dangling_edges_diverge [OF t(1,2)] t(3) obtain plan where
    plan: "buildExecutionPlan ex_dangling_target = Some plan" "plan_valid plan"
      "distinct (map ctx_nodeId (plan_nodes plan))"
      "set (map ctx_nodeId (plan_nodes plan)) = node_id ` set (wf_nodes ex_dangling_target)"
    by blast
  have "set (map ctx_nodeId (plan_nodes plan)) = {''A''}"
    unfolding plan(4) by (simp add: ex_dangling_target_def ex_workflow_def ex_node_def)
  with plan(3) have "map ctx_nodeId (plan_nodes plan) = [''A'']"
    by (rule singleton_list)
  with plan(1,2) have b: "plan_order ex_dangling_target = Some (True, [''A''])"
    by (simp add: plan_order_def)
  from a b show ?thesis by simp
qed

lemma acyclic_relay: "acyclic (edge_rel (wf_edges ex_dangling_relay))"
proof (rule acyclicI_order [where f = "\<lambda>i. if i = ''A'' then 2 else if i = ''X'' then 1 else (0::nat)"])
  fix a b assume "(a, b) \<in> edge_rel (wf_edges ex_dangling_relay)"
  then show "(if b = ''A'' then 2 else if b = ''X'' then 1 else (0::nat))
               < (if a = ''A'' then 2 else if a = ''X'' then 1 else 0)"
    by (auto simp: edge_rel_def ex_dangling_relay_def ex_workflow_def ex_edge_def)
qed

lemma acyclic_both: "acyclic (edge_rel (wf_edges ex_dangling_both))"
proof (rule acyclicI_order [where f = "\<lambda>i. if i = ''X'' then 2 else if i = ''B'' then 1 else (0::nat)"])
  fix a b assume "(a, b) \<in> edge_rel (wf_edges ex_dangling_both)"
  then show "(if b = ''X'' then 2 else if b = ''B'' then 1 else (0::nat))
               < (if a = ''X'' then 2 else if a = ''B'' then 1 else 0)"
    by (auto simp: edge_rel_def ex_dangling_both_def ex_workflow_def ex_edge_def)
qed

lemma plan_order_dangling:
  "plan_order ex_dangling_relay = Some (True, [''A'', ''B''])"
  "plan_order ex_dangling_pair = Some (True, [''A''])"
  "plan_order ex_dangling_both = Some (False, [])"
  by code_simp+

text \<open>
  The claim as written fails in both halves. An edge whose source is no node does not make
  the plan invalid when that source is itself the target of an edge (\<^verbatim>\<open>A -> X\<close>, \<^verbatim>\<open>X -> B\<close>
  with nodes \<^verbatim>\<open>A\<close>, \<^verbatim>\<open>B\<close>), or when its target is no node either (\<^verbatim>\<open>X -> Y\<close> with node
  \<^verbatim>\<open>A\<close>). An edge whose target is no node does not keep the plan valid when another edge
  has a source that is never dequeued (\<^verbatim>\<open>X -> B\<close>, \<^verbatim>\<open>B -> Y\<close> with node \<^verbatim>\<open>B\<close>).
\<close>

theorem dangling_edges_counterexample:
  "acyclic (edge_rel (wf_edges ex_dangling_relay)) \<and>
   map (\<lambda>e. (source e, target e)) (wf_edges ex_dangling_relay) = [(''A'', ''X''), (''X'', ''B'')] \<and>
   map node_id (wf_nodes ex_dangling_relay) = [''A'', ''B''] \<and>
   plan_order ex_dangling_relay = Some (True, [''A'', ''B'']) \<and>
   acyclic (edge_rel (wf_edges ex_dangling_pair)) \<and>
   plan_order ex_dangling_pair = Some (True, [''A'']) \<and>
   acyclic (edge_rel (wf_edges ex_dangling_both)) \<and>
   map (\<lambda>e. (source e, target e)) (wf_edges ex_dangling_both) = [(''X'', ''B''), (''B'', ''Y'')] \<and>
   map node_id (wf_nodes ex_dangling_both) = [''B''] \<and>
   plan_order ex_dangling_both = Some (False, [])"
proof -
  have "acyclic (edge_rel (wf_edges ex_dangling_pair))"
    by (simp add: ex_dangling_pair_def ex_workflow_def ex_edge_def edge_rel_def acyclic_no_edges)
  with acyclic_relay acyclic_both plan_order_dangling show ?thesis
    by (simp add: ex_dangling_relay_def ex_dangling_both_def ex_workflow_def ex_node_def ex_edge_def)
qed


end
